theory Spec2Isabelle
  imports Complex_Main
begin

section \<open>TreeNode (src/packages/lume/src/core/TreeNode.ts)\<close>

text \<open>
  Objects live in a store. A node is a reference; each field of the class is a map from
  references to values (\<open>__parent\<close>, \<open>__isConnected\<close>). Arrays are objects of their own:
  the store \<open>arrays\<close> maps an array reference to its contents. \<open>ChildrenOf n\<close> is
  the array held in \<open>n.__children\<close> (created by the field initialiser, never reassigned:
  the test \<open>if (!this.__children)\<close> in \<open>add\<close> is never true of an array), \<open>Copy k\<close>
  is the k-th array created by a spread \<open>[...xs]\<close>. A node that was never touched has no parent,
  no children and is not connected, as a freshly constructed one. The constructor and the
  \<open>parent\<close> getter call \<open>this.parentNode?.add?.(this)\<close> for a node that stands in the
  DOM; the DOM is outside the model, where trees are built by \<open>add\<close> and \<open>removeNode\<close>.
\<close>

type_synonym ref = nat

datatype aref = ChildrenOf ref | Copy nat

text \<open>The argument handed to \<open>add\<close> and \<open>removeNode\<close>: both test \<open>instanceof TreeNode\<close>.\<close>

datatype jsval = TreeNodeRef ref | NotATreeNode

datatype error = TypeError | Error | ReferenceError | Thrown string

text \<open>The life cycle methods, and the two closures that \<open>add\<close> and \<open>removeNode\<close> defer.\<close>

datatype callback =
    connected ref
  | childConnected ref ref
  | disconnected ref
  | childDisconnected ref ref

datatype task = ConnectedTask ref ref | DisconnectedTask ref ref

record state =
  node_parent :: "ref \<Rightarrow> ref option"
  arrays :: "aref \<Rightarrow> ref list"
  node_isConnected :: "ref \<Rightarrow> bool"
  deferred :: "task list"
  fired :: "callback list"
  scheduled :: "ref list"
  reran :: "ref list"
  next_copy :: nat

abbreviation children :: "state \<Rightarrow> ref \<Rightarrow> ref list" where
  "children s n \<equiv> arrays s (ChildrenOf n)"

definition init :: state where
  "init = \<lparr>node_parent = (\<lambda>_. None), arrays = (\<lambda>_. []), node_isConnected = (\<lambda>_. False),
     deferred = [], fired = [], scheduled = [], reran = [], next_copy = 0\<rparr>"

text \<open>
  Modelled from the spec: \<open>defer\<close> of core/utils.js, which is not among the sources. The spec
  (sections 6 and 9) has deferred callbacks delivered after the current synchronous batch
  completes, from a queue: the closure is appended to the queue of deferred tasks.
\<close>

definition defer_fn :: "task \<Rightarrow> state \<Rightarrow> state" where
  "defer_fn t s = s\<lparr>deferred := deferred s @ [t]\<rparr>"

text \<open>
  Modelled from the spec: \<open>@reactive\<close> of @lume/element, which is not among the sources,
  on the field \<open>__parent\<close>. The spec (section 4.5) has a write to an observable input
  schedule the computations that read it to run again, and the re-runs coalesce: however many
  writes there are within one synchronous burst, a computation is scheduled at most once before
  the next drain. \<open>scheduled\<close> lists the nodes whose parent pointer was written since the
  last drain, each once: the computations that read the parent of such a node (the autoruns of
  its subclasses) are waiting to run again.
\<close>

definition schedule :: "ref \<Rightarrow> ref list \<Rightarrow> ref list" where
  "schedule n ns = (if n \<in> set ns then ns else ns @ [n])"

definition write_parent :: "ref \<Rightarrow> ref option \<Rightarrow> state \<Rightarrow> state" where
  "write_parent n v s =
     s\<lparr>node_parent := (node_parent s)(n := v), scheduled := schedule n (scheduled s)\<rparr>"

subsection \<open>Array.prototype.indexOf and Array.prototype.splice(start, 1)\<close>

fun indexOf :: "ref list \<Rightarrow> ref \<Rightarrow> int" where
  "indexOf [] x = - 1"
| "indexOf (y # ys) x =
     (if y = x then 0 else (let i = indexOf ys x in if i < 0 then - 1 else i + 1))"

text \<open>A negative start counts from the end of the array, so \<open>splice(-1, 1)\<close> drops the last element.\<close>

definition splice1 :: "ref list \<Rightarrow> int \<Rightarrow> ref list" where
  "splice1 xs start =
     (let n = int (length xs);
          k = nat (if start < 0 then max (n + start) 0 else min start n)
      in take k xs @ drop (Suc k) xs)"

subsection \<open>removeNode and add\<close>

definition removeNode :: "ref \<Rightarrow> jsval \<Rightarrow> state \<Rightarrow> (error \<times> state) + state" where
  "removeNode this v s =
     (case v of
        NotATreeNode \<Rightarrow> Inl (Error, s)
      | TreeNodeRef childNode \<Rightarrow>
          if node_parent s childNode \<noteq> Some this then Inl (ReferenceError, s)
          else
            let s1 = write_parent childNode None s;
                s2 = s1\<lparr>arrays := (arrays s1)(ChildrenOf this :=
                        splice1 (children s1 this) (indexOf (children s1 this) childNode))\<rparr>;
                s3 = s2\<lparr>node_isConnected := (node_isConnected s2)(childNode := False)\<rparr>
            in Inr (defer_fn (DisconnectedTask this childNode) s3))"

definition add :: "ref \<Rightarrow> jsval \<Rightarrow> state \<Rightarrow> (error \<times> state) + state" where
  "add this v s =
     (case v of
        NotATreeNode \<Rightarrow> Inl (TypeError, s)
      | TreeNodeRef childNode \<Rightarrow>
          if node_parent s childNode = Some this then Inr s
          else
            (case (case node_parent s childNode of
                     None \<Rightarrow> Inr s
                   | Some p \<Rightarrow> removeNode p (TreeNodeRef childNode) s) of
               Inl e \<Rightarrow> Inl e
             | Inr s1 \<Rightarrow>
                 let s2 = write_parent childNode (Some this) s1;
                     s3 = s2\<lparr>arrays := (arrays s2)(ChildrenOf this := children s2 this @ [childNode])\<rparr>;
                     s4 = s3\<lparr>node_isConnected := (node_isConnected s3)(childNode := True)\<rparr>
                 in Inr (defer_fn (ConnectedTask this childNode) s4)))"

subsection \<open>subnodes and childCount\<close>

text \<open>\<open>[...this.__children]\<close> allocates a new array with the same elements and returns it.\<close>

definition subnodes :: "ref \<Rightarrow> state \<Rightarrow> aref \<times> state" where
  "subnodes this s =
     (let a = Copy (next_copy s)
      in (a, s\<lparr>arrays := (arrays s)(a := children s this), next_copy := Suc (next_copy s)\<rparr>))"

definition childCount :: "ref \<Rightarrow> state \<Rightarrow> nat" where
  "childCount this s = length (children s this)"

subsection \<open>Sequences of calls, and the tree invariant\<close>

datatype op = Add ref jsval | RemoveNode ref jsval

definition exec :: "op \<Rightarrow> state \<Rightarrow> (error \<times> state) + state" where
  "exec c s = (case c of Add p v \<Rightarrow> add p v s | RemoveNode p v \<Rightarrow> removeNode p v s)"

text \<open>The state a call leaves behind, whether it returned or threw.\<close>

definition state_after :: "(error \<times> 's) + 's \<Rightarrow> 's" where
  "state_after r = (case r of Inl (e, s) \<Rightarrow> s | Inr s \<Rightarrow> s)"

fun run :: "op list \<Rightarrow> state \<Rightarrow> state" where
  "run [] s = s"
| "run (c # cs) s = run cs (state_after (exec c s))"

text \<open>
  Parent pointers and children arrays agree, and no array lists a child twice (without
  which \<open>splice\<close> of one index would leave a second entry behind).
\<close>

definition consistent :: "state \<Rightarrow> bool" where
  "consistent s \<longleftrightarrow>
     (\<forall>a b. a \<in> set (children s b) \<longleftrightarrow> node_parent s a = Some b) \<and>
     (\<forall>b. distinct (children s b))"

definition parent_rel :: "state \<Rightarrow> (ref \<times> ref) set" where
  "parent_rel s = {(c, p). node_parent s c = Some p}"

text \<open>\<open>a\<close> is reached from \<open>n\<close> by following one or more parent links.\<close>

definition is_ancestor :: "state \<Rightarrow> ref \<Rightarrow> ref \<Rightarrow> bool" where
  "is_ancestor s a n \<longleftrightarrow> (n, a) \<in> (parent_rel s)\<^sup>+"

definition acyclic_parents :: "state \<Rightarrow> bool" where
  "acyclic_parents s \<longleftrightarrow> (\<forall>n. \<not> is_ancestor s n n)"

text \<open>No call of the sequence adds a node to itself or to one of its descendants.\<close>

fun cycle_free_calls :: "op list \<Rightarrow> state \<Rightarrow> bool" where
  "cycle_free_calls [] s = True"
| "cycle_free_calls (c # cs) s =
     ((case c of
         Add p (TreeNodeRef n) \<Rightarrow> n \<noteq> p \<and> \<not> is_ancestor s n p
       | _ \<Rightarrow> True) \<and>
      cycle_free_calls cs (state_after (exec c s)))"

subsection \<open>Running the deferred closures\<close>

text \<open>
  The life cycle methods of TreeNode are empty hooks for subclasses. Running one is
  recorded in \<open>fired\<close>; what an observer placed in the hook can read is the state at that
  moment, returned beside the callback.
\<close>

definition call :: "callback \<Rightarrow> state \<Rightarrow> (callback \<times> state) \<times> state" where
  "call cb s = ((cb, s), s\<lparr>fired := fired s @ [cb]\<rparr>)"

definition run_task :: "task \<Rightarrow> state \<Rightarrow> (callback \<times> state) list \<times> state" where
  "run_task t s =
     (case t of
        ConnectedTask this childNode \<Rightarrow>
          (let (o1, s1) = call (connected childNode) s;
               (o2, s2) = call (childConnected this childNode) s1
           in ([o1, o2], s2))
      | DisconnectedTask this childNode \<Rightarrow>
          (let (o1, s1) = call (disconnected childNode) s;
               (o2, s2) = call (childDisconnected this childNode) s1
           in ([o1, o2], s2)))"

text \<open>The queue is emptied first in, first out, each closure removed before it runs.\<close>

function run_deferred :: "state \<Rightarrow> (callback \<times> state) list \<times> state" where
  "run_deferred s =
     (case deferred s of
        [] \<Rightarrow> ([], s)
      | t # ts \<Rightarrow>
          (let r = run_task t (s\<lparr>deferred := ts\<rparr>);
               r' = run_deferred (snd r)
           in (fst r @ fst r', snd r')))"
  by pat_completeness auto
termination
  by (relation "measure (\<lambda>s. length (deferred s))")
     (auto simp: run_task_def call_def split: task.splits)

declare run_deferred.simps [simp del]

text \<open>
  The scheduled re-runs, in the same way: each computation that runs again is recorded in
  \<open>reran\<close>, and what it can read is the state at that moment. What the computations
  are is not fixed here; none of them is taken to call \<open>add\<close> or \<open>removeNode\<close>.
\<close>

fun run_reactions :: "ref list \<Rightarrow> state \<Rightarrow> (ref \<times> state) list \<times> state" where
  "run_reactions [] s = ([], s)"
| "run_reactions (n # ns) s =
     (let r = run_reactions ns (s\<lparr>reran := reran s @ [n]\<rparr>)
      in ((n, s) # fst r, snd r))"

definition run_scheduled :: "state \<Rightarrow> (ref \<times> state) list \<times> state" where
  "run_scheduled s = run_reactions (scheduled s) (s\<lparr>scheduled := []\<rparr>)"

text \<open>
  What happens after a call: further calls of \<open>add\<close> and \<open>removeNode\<close>, and drains of
  the queue of deferred closures and of the scheduled re-runs, in any order.
  \<open>calls_of\<close> keeps the calls.
\<close>

datatype turn = Call op | RunDeferred | RunScheduled

fun session :: "turn list \<Rightarrow> state \<Rightarrow> state" where
  "session [] s = s"
| "session (Call c # ts) s = session ts (state_after (exec c s))"
| "session (RunDeferred # ts) s = session ts (snd (run_deferred s))"
| "session (RunScheduled # ts) s = session ts (snd (run_scheduled s))"

fun calls_of :: "turn list \<Rightarrow> op list" where
  "calls_of [] = []"
| "calls_of (Call c # ts) = c # calls_of ts"
| "calls_of (RunDeferred # ts) = calls_of ts"
| "calls_of (RunScheduled # ts) = calls_of ts"

text \<open>
  Two states with the same tree: parent pointers, arrays and connectivity flags agree.
  The callbacks a deferred closure makes, in their order.
\<close>

definition same_tree :: "state \<Rightarrow> state \<Rightarrow> bool" where
  "same_tree v s \<longleftrightarrow>
     node_parent v = node_parent s \<and> arrays v = arrays s \<and> node_isConnected v = node_isConnected s"

definition callbacks_of :: "task \<Rightarrow> callback list" where
  "callbacks_of t =
     (case t of
        ConnectedTask this childNode \<Rightarrow> [connected childNode, childConnected this childNode]
      | DisconnectedTask this childNode \<Rightarrow> [disconnected childNode, childDisconnected this childNode])"

subsection \<open>What a caller can do to an array it holds\<close>

text \<open>
  \<open>push\<close>, \<open>pop\<close>, \<open>splice(start, deleteCount, ...items)\<close> and \<open>reverse\<close> of
  Array.prototype; \<open>Rewrite f\<close> stands for any other rewriting in place (\<open>sort\<close> with a
  comparator, an assignment to an index or to \<open>length\<close>). Each one changes the array it is
  called on and no other object.
\<close>

datatype array_op =
    Push ref
  | Pop
  | Splice int int "ref list"
  | Reverse
  | Rewrite "ref list \<Rightarrow> ref list"

definition array_apply :: "array_op \<Rightarrow> ref list \<Rightarrow> ref list" where
  "array_apply m xs =
     (case m of
        Push x \<Rightarrow> xs @ [x]
      | Pop \<Rightarrow> butlast xs
      | Splice start deleteCount items \<Rightarrow>
          (let n = int (length xs);
               k = (if start < 0 then max (n + start) 0 else min start n);
               d = min (max deleteCount 0) (n - k)
           in take (nat k) xs @ items @ drop (nat (k + d)) xs)
      | Reverse \<Rightarrow> rev xs
      | Rewrite f \<Rightarrow> f xs)"

definition mutate :: "aref \<Rightarrow> array_op \<Rightarrow> state \<Rightarrow> state" where
  "mutate a m s = s\<lparr>arrays := (arrays s)(a := array_apply m (arrays s a))\<rparr>"

fun mutate_all :: "aref \<Rightarrow> array_op list \<Rightarrow> state \<Rightarrow> state" where
  "mutate_all a [] s = s"
| "mutate_all a (m # ms) s = mutate_all a ms (mutate a m s)"

section \<open>GltfModelBehavior (in src/packages/lume/src/utils/Settable.ts)\<close>

text \<open>
  The behavior's own fields, and the collaborators it acts on, each as the list of what was
  done to it: the loads handed to \<open>gltfLoader.load\<close> (the url and the version the callbacks
  captured), the events emitted on the element, the scenes added to \<open>element.three\<close>, the
  scenes disposed or re-centred, the calls of \<open>needsUpdate\<close> and the console. A loaded
  model is a reference. \<open>src\<close> and \<open>dracoDecoder\<close> are \<open>string | null\<close>.
\<close>

type_synonym gltf = nat

datatype autorun = DracoAutorun | LoadAutorun

datatype emitted = PROGRESS nat | MODEL_ERROR "string option" | MODEL_LOAD gltf

text \<open>
  The warning of \<open>onError\<close>: the message of the error event, or the text made of the tag
  name, \<open>src\<close> and \<open>dracoDecoder\<close>.
\<close>

datatype console_entry =
    Warn string
  | WarnFailedToLoad string "string option" "string option"
  | ConsoleError string

record ErrorEvent =
  ev_message :: "string option"
  ev_error :: "string option"

record GltfModelBehavior =
  src :: "string option"
  dracoDecoder :: "string option"
  centerGeometry :: bool
  dracoLoader :: "string option option"
  gltfLoader :: bool
  model :: "gltf option"
  version :: nat
  stopFns :: "autorun list"
  tagName :: string
  loads :: "(string \<times> nat) list"
  emitted :: "emitted list"
  three_children :: "gltf list"
  disposed :: "gltf list"
  centred :: "gltf list"
  dracoDisposals :: nat
  needsUpdates :: nat
  console :: "console_entry list"

text \<open>
  \<open>dracoLoader\<close> is undefined (\<open>None\<close>) or a loader with its decoder path;
  \<open>gltfLoader\<close> is defined or not. A string or null is truthy when it is a non-empty string.
\<close>

definition truthy :: "string option \<Rightarrow> bool" where
  "truthy v = (case v of None \<Rightarrow> False | Some x \<Rightarrow> x \<noteq> [])"

text \<open>
  \<open>#version++\<close> on a JavaScript number: exact below \<open>2^53\<close>, where adding one no longer
  changes the value.
\<close>

definition js_incr :: "nat \<Rightarrow> nat" where
  "js_incr v = (if v < 2 ^ 53 then v + 1 else v)"

definition cleanupModel :: "GltfModelBehavior \<Rightarrow> GltfModelBehavior" where
  "cleanupModel s =
     (let s1 = (case model s of None \<Rightarrow> s | Some m \<Rightarrow> s\<lparr>disposed := disposed s @ [m]\<rparr>)
      in s1\<lparr>model := None\<rparr>)"

definition loadObj :: "GltfModelBehavior \<Rightarrow> (error \<times> GltfModelBehavior) + GltfModelBehavior" where
  "loadObj s =
     (let v = version s
      in case src s of
           None \<Rightarrow> Inr s
         | Some url \<Rightarrow>
             if url = [] then Inr s
             else if \<not> gltfLoader s then Inl (TypeError, s)
             else Inr (s\<lparr>loads := loads s @ [(url, v)]\<rparr>))"

definition onError :: "ErrorEvent \<Rightarrow> GltfModelBehavior \<Rightarrow> GltfModelBehavior" where
  "onError e s =
     (let message = (case ev_message e of
                       Some m \<Rightarrow> Warn m
                     | None \<Rightarrow> WarnFailedToLoad (tagName s) (src s) (dracoDecoder s));
          s1 = s\<lparr>console := console s @ [message]\<rparr>;
          s2 = (case ev_error e of
                  None \<Rightarrow> s1
                | Some x \<Rightarrow> if x = [] then s1 else s1\<lparr>console := console s1 @ [ConsoleError x]\<rparr>)
      in s2\<lparr>emitted := emitted s2 @ [MODEL_ERROR (ev_error e)]\<rparr>)"

definition setModel :: "gltf \<Rightarrow> GltfModelBehavior \<Rightarrow> GltfModelBehavior" where
  "setModel m s =
     (let s1 = s\<lparr>model := Some m\<rparr>;
          s2 = (if centerGeometry s1 then s1\<lparr>centred := centred s1 @ [m]\<rparr> else s1);
          s3 = s2\<lparr>three_children := three_children s2 @ [m]\<rparr>;
          s4 = s3\<lparr>emitted := emitted s3 @ [MODEL_LOAD m]\<rparr>
      in s4\<lparr>needsUpdates := Suc (needsUpdates s4)\<rparr>)"

text \<open>
  The three callbacks handed to \<open>gltfLoader.load\<close>, each closed over the version read at
  the start of \<open>loadObj\<close>: \<open>version == this.#version && ...\<close>.
\<close>

datatype completion = OnLoad gltf | OnProgress nat | OnFailure ErrorEvent

definition complete :: "completion \<Rightarrow> nat \<Rightarrow> GltfModelBehavior \<Rightarrow> GltfModelBehavior" where
  "complete c token s =
     (case c of
        OnLoad m \<Rightarrow> if token = version s then setModel m s else s
      | OnProgress p \<Rightarrow> if token = version s then s\<lparr>emitted := emitted s @ [PROGRESS p]\<rparr> else s
      | OnFailure e \<Rightarrow> if token = version s then onError e s else s)"

text \<open>The bodies of the two autoruns of \<open>loadGL\<close>; \<open>firstRun\<close> is the variable they close over.\<close>

definition draco_autorun ::
    "bool \<Rightarrow> GltfModelBehavior \<Rightarrow> (error \<times> GltfModelBehavior) + GltfModelBehavior" where
  "draco_autorun firstRun s =
     (if truthy (dracoDecoder s) then
        (case dracoLoader s of
           None \<Rightarrow> Inl (TypeError, s)
         | Some d \<Rightarrow>
             let s1 = (if \<not> firstRun then s\<lparr>dracoDisposals := Suc (dracoDisposals s)\<rparr> else s)
             in Inr (s1\<lparr>dracoLoader := Some (dracoDecoder s1)\<rparr>))
      else Inr s)"

definition load_autorun :: "GltfModelBehavior \<Rightarrow> (error \<times> GltfModelBehavior) + GltfModelBehavior" where
  "load_autorun s =
     (let s1 = cleanupModel s;
          s2 = s1\<lparr>version := js_incr (version s1)\<rparr>
      in loadObj s2)"

definition loadGL ::
    "bool \<Rightarrow> GltfModelBehavior \<Rightarrow> (error \<times> GltfModelBehavior) + (bool \<times> GltfModelBehavior)" where
  "loadGL superLoaded s =
     (if \<not> superLoaded then Inr (False, s)
      else
        let s1 = s\<lparr>dracoLoader := Some None, gltfLoader := True\<rparr>
        in case draco_autorun True s1 of
             Inl e \<Rightarrow> Inl e
           | Inr s2 \<Rightarrow>
               (case load_autorun s2 of
                  Inl e \<Rightarrow> Inl e
                | Inr s3 \<Rightarrow> Inr (True, s3\<lparr>stopFns := stopFns s3 @ [DracoAutorun, LoadAutorun]\<rparr>)))"

definition unloadGL :: "bool \<Rightarrow> GltfModelBehavior \<Rightarrow> bool \<times> GltfModelBehavior" where
  "unloadGL superUnloaded s =
     (if \<not> superUnloaded then (False, s)
      else
        let s1 = s\<lparr>stopFns := []\<rparr>;
            s2 = s1\<lparr>gltfLoader := False\<rparr>;
            s3 = (case dracoLoader s2 of
                    None \<Rightarrow> s2
                  | Some d \<Rightarrow> s2\<lparr>dracoDisposals := Suc (dracoDisposals s2)\<rparr>);
            s4 = s3\<lparr>dracoLoader := None\<rparr>;
            s5 = cleanupModel s4
        in (True, s5\<lparr>version := js_incr (version s5)\<rparr>))"

text \<open>
  Modelled from the spec: \<open>autorun\<close> of @lume/element, which is not among the sources. The
  spec (section 4.5) has a registered computation run again after a write to an input it read,
  until it is stopped. The draco autorun reads \<open>dracoDecoder\<close>; the load autorun reads
  \<open>src\<close>, \<open>dracoDecoder\<close> and \<open>centerGeometry\<close>. After a write, the registered
  autoruns that read the property run again in the order of their registration, with
  \<open>firstRun\<close> false by then; a throw ends the run.
\<close>

datatype property = Src | DracoDecoder | CenterGeometry

definition reads :: "autorun \<Rightarrow> property \<Rightarrow> bool" where
  "reads a p = (case a of DracoAutorun \<Rightarrow> p = DracoDecoder | LoadAutorun \<Rightarrow> True)"

fun rerun ::
    "property \<Rightarrow> autorun list \<Rightarrow> GltfModelBehavior \<Rightarrow> (error \<times> GltfModelBehavior) + GltfModelBehavior" where
  "rerun p [] s = Inr s"
| "rerun p (a # as) s =
     (if reads a p then
        (case (case a of DracoAutorun \<Rightarrow> draco_autorun False s | LoadAutorun \<Rightarrow> load_autorun s) of
           Inl e \<Rightarrow> Inl e
         | Inr s1 \<Rightarrow> rerun p as s1)
      else rerun p as s)"

text \<open>
  What can happen to a behavior: a property is written, the backend is loaded or unloaded
  (with what \<open>super.loadGL()\<close> or \<open>super.unloadGL()\<close> of RenderableBehavior returned, which
  is not among the sources), or the loader calls one of the callbacks of some load.
\<close>

datatype gl_event =
    SetSrc "string option"
  | SetDracoDecoder "string option"
  | SetCenterGeometry bool
  | LoadGL bool
  | UnloadGL bool
  | Completion completion nat

definition gl_step :: "gl_event \<Rightarrow> GltfModelBehavior \<Rightarrow> GltfModelBehavior" where
  "gl_step ev s =
     (case ev of
        SetSrc v \<Rightarrow> state_after (rerun Src (stopFns s) (s\<lparr>src := v\<rparr>))
      | SetDracoDecoder v \<Rightarrow> state_after (rerun DracoDecoder (stopFns s) (s\<lparr>dracoDecoder := v\<rparr>))
      | SetCenterGeometry b \<Rightarrow> state_after (rerun CenterGeometry (stopFns s) (s\<lparr>centerGeometry := b\<rparr>))
      | LoadGL ok \<Rightarrow> (case loadGL ok s of Inl (e, s') \<Rightarrow> s' | Inr (r, s') \<Rightarrow> s')
      | UnloadGL ok \<Rightarrow> snd (unloadGL ok s)
      | Completion c token \<Rightarrow> complete c token s)"

fun gl_steps :: "gl_event list \<Rightarrow> GltfModelBehavior \<Rightarrow> GltfModelBehavior" where
  "gl_steps [] s = s"
| "gl_steps (ev # evs) s = gl_steps evs (gl_step ev s)"

text \<open>
  The events that cancel the loads in flight: a write to \<open>src\<close> or \<open>dracoDecoder\<close>
  (or \<open>centerGeometry\<close>) while the load autorun is registered, which starts the load again;
  a load or an unload of the backend that \<open>super\<close> let through.
\<close>

definition restarts :: "gl_event \<Rightarrow> GltfModelBehavior \<Rightarrow> bool" where
  "restarts ev s =
     (case ev of
        SetSrc v \<Rightarrow> LoadAutorun \<in> set (stopFns s)
      | SetDracoDecoder v \<Rightarrow> LoadAutorun \<in> set (stopFns s)
      | SetCenterGeometry b \<Rightarrow> LoadAutorun \<in> set (stopFns s)
      | LoadGL ok \<Rightarrow> ok
      | UnloadGL ok \<Rightarrow> ok
      | Completion c token \<Rightarrow> False)"

definition gltf_init :: GltfModelBehavior where
  "gltf_init = \<lparr>src = Some [], dracoDecoder = Some [], centerGeometry = False,
     dracoLoader = None, gltfLoader = False, model = None, version = 0, stopFns = [],
     tagName = ''LUME-GLTF-MODEL'', loads = [], emitted = [], three_children = [],
     disposed = [], centred = [], dracoDisposals = 0, needsUpdates = 0, console = []\<rparr>"

text \<open>
  What holds of every behavior built by these events: while autoruns are registered both
  loaders are defined (\<open>loadGL\<close> creates them before it registers, \<open>unloadGL\<close> stops the
  autoruns before it drops them), and the version captured by a load in flight is one the
  counter has reached.
\<close>

definition ready :: "GltfModelBehavior \<Rightarrow> bool" where
  "ready s \<longleftrightarrow> dracoLoader s \<noteq> None \<and> gltfLoader s"

definition loaders_ready :: "GltfModelBehavior \<Rightarrow> bool" where
  "loaders_ready s \<longleftrightarrow> (stopFns s \<noteq> [] \<longrightarrow> ready s)"

definition tokens_issued :: "GltfModelBehavior \<Rightarrow> bool" where
  "tokens_issued s \<longleftrightarrow> (\<forall>(url, k) \<in> set (loads s). k \<le> version s)"

definition well_formed :: "GltfModelBehavior \<Rightarrow> bool" where
  "well_formed s \<longleftrightarrow> loaders_ready s \<and> tokens_issued s"

section \<open>ImperativeBase (src/unnamed/part_000)\<close>

text \<open>
  Nodes and scenes are references again, one map per field, and the Three.js objects are
  objects of a second store. JavaScript numbers are taken as real numbers (rounding is not
  modelled). Of a Three.js object the model keeps what the methods below touch: name, type,
  parent and children, position, pivot, \<open>matrixAutoUpdate\<close>, and how often \<open>updateMatrix\<close>
  was called.

  The per-node inputs come from classes that are not among the sources and are fields here:
  what \<open>getAlignPoint()\<close>, \<open>getMountPoint()\<close>, \<open>getPosition()\<close>, \<open>getOrigin()\<close> and
  \<open>calculatedSize\<close> return, what \<open>_getParentSize()\<close> returns, and the three fields of
  DeclarativeBase that \<open>_connectThree\<close> reads. The \<open>parent\<close> getter is read as the parent
  pointer (its hook into the DOM's \<open>parentNode\<close> is outside the model), and every parent is
  an ImperativeBase, so the two type checks on the parent never throw.
\<close>

type_synonym oref = nat

datatype 'a xyz = XYZ (xval: 'a) (yval: 'a) (zval: 'a)

record Object3D =
  o_name :: string
  o_type :: string
  o_parent :: "oref option"
  o_children :: "oref list"
  o_position :: "real xyz"
  o_pivot :: "real xyz"
  o_matrixAutoUpdate :: bool
  o_matrixUpdates :: nat

record ib_state =
  isScene :: "ref \<Rightarrow> bool"
  isNode :: "ref \<Rightarrow> bool"
  isHTMLElement :: "ref \<Rightarrow> bool"
  elem_tagName :: "ref \<Rightarrow> string"
  elem_id :: "ref \<Rightarrow> string"
  parent_ref :: "ref \<Rightarrow> ref option"
  scene_ref :: "ref \<Rightarrow> ref option"
  webgl :: "ref \<Rightarrow> bool"
  enableCss :: "ref \<Rightarrow> bool"
  three_ref :: "ref \<Rightarrow> oref option"
  threeCSS_ref :: "ref \<Rightarrow> oref option"
  glLoaded :: "ref \<Rightarrow> bool"
  cssLoaded :: "ref \<Rightarrow> bool"
  willBeRendered :: "ref \<Rightarrow> bool"
  isPossiblyDistributedToShadowRoot :: "ref \<Rightarrow> bool"
  distributedParent :: "ref \<Rightarrow> ref option"
  shadowRootParent :: "ref \<Rightarrow> ref option"
  alignPoint :: "ref \<Rightarrow> real xyz"
  mountPoint :: "ref \<Rightarrow> real xyz"
  position :: "ref \<Rightarrow> real xyz"
  origin :: "ref \<Rightarrow> real xyz"
  calculatedSize :: "ref \<Rightarrow> real xyz"
  parentSize :: "ref \<Rightarrow> real xyz"
  objects :: "oref \<Rightarrow> Object3D"
  next_obj :: nat
  toBeRendered :: "ref set"
  threeJsPostAdjustment :: "real xyz"
  alignAdjustment :: "real xyz"
  mountPointAdjustment :: "real xyz"
  appliedPosition :: "real xyz"

subsection \<open>The Three.js objects of a node\<close>

text \<open>
  \<open>new Object3D()\<close> and \<open>new CSS3DObjectNested(this)\<close>, or \<open>new ThreeScene()\<close>
  where Scene overrides \<open>makeThreeObject3d\<close> and \<open>makeThreeCSSObject\<close>: a fresh object,
  placed at the next free reference. In the names below a leading underscore of the source
  is dropped and two of them are written \<open>dd_\<close>; \<open>_loadGL\<close> and \<open>_loadCSS\<close> of
  ImperativeBase are \<open>loadGL_node\<close> and \<open>loadCSS_node\<close>.
\<close>

definition new_object :: "string \<Rightarrow> Object3D" where
  "new_object ty = \<lparr>o_name = [], o_type = ty, o_parent = None, o_children = [],
     o_position = XYZ 0 0 0, o_pivot = XYZ 0 0 0, o_matrixAutoUpdate = True, o_matrixUpdates = 0\<rparr>"

definition object_name :: "ref \<Rightarrow> ib_state \<Rightarrow> string" where
  "object_name this s =
     elem_tagName s this @ (if elem_id s this \<noteq> [] then ''#'' @ elem_id s this else [])"

definition makeThreeObject3d :: "ref \<Rightarrow> ib_state \<Rightarrow> oref \<times> ib_state" where
  "makeThreeObject3d this s =
     (let r = next_obj s;
          ob = new_object (if isScene s this then ''Scene'' else ''Object3D'')
      in (r, s\<lparr>objects := (objects s)(r := ob), next_obj := Suc r\<rparr>))"

definition dd_makeThreeObject3d :: "ref \<Rightarrow> ib_state \<Rightarrow> oref \<times> ib_state" where
  "dd_makeThreeObject3d this s =
     (let (r, s1) = makeThreeObject3d this s
      in (r, s1\<lparr>objects := (objects s1)(r := (objects s1 r)\<lparr>o_name := object_name this s1\<rparr>)\<rparr>))"

definition three :: "ref \<Rightarrow> ib_state \<Rightarrow> oref \<times> ib_state" where
  "three this s =
     (case three_ref s this of
        Some r \<Rightarrow> (r, s)
      | None \<Rightarrow>
          (let (r, s1) = dd_makeThreeObject3d this s
           in (r, s1\<lparr>three_ref := (three_ref s1)(this \<mapsto> r)\<rparr>)))"

definition makeThreeCSSObject :: "ref \<Rightarrow> ib_state \<Rightarrow> (error \<times> ib_state) + (oref \<times> ib_state)" where
  "makeThreeCSSObject this s =
     (let r = next_obj s
      in if isScene s this then
           Inr (r, s\<lparr>objects := (objects s)(r := new_object ''Scene''), next_obj := Suc r\<rparr>)
         else if \<not> isHTMLElement s this then
           Inl (Thrown ''API available only in DOM environment.'', s)
         else
           Inr (r, s\<lparr>objects := (objects s)(r := new_object ''Object3D''), next_obj := Suc r\<rparr>))"

definition dd_makeThreeCSSObject :: "ref \<Rightarrow> ib_state \<Rightarrow> (error \<times> ib_state) + (oref \<times> ib_state)" where
  "dd_makeThreeCSSObject this s =
     (case makeThreeCSSObject this s of
        Inl e \<Rightarrow> Inl e
      | Inr (r, s1) \<Rightarrow>
          Inr (r, s1\<lparr>objects := (objects s1)(r := (objects s1 r)\<lparr>o_name := object_name this s1\<rparr>)\<rparr>))"

definition threeCSS :: "ref \<Rightarrow> ib_state \<Rightarrow> (error \<times> ib_state) + (oref \<times> ib_state)" where
  "threeCSS this s =
     (case threeCSS_ref s this of
        Some r \<Rightarrow> Inr (r, s)
      | None \<Rightarrow>
          (case dd_makeThreeCSSObject this s of
             Inl e \<Rightarrow> Inl e
           | Inr (r, s1) \<Rightarrow> Inr (r, s1\<lparr>threeCSS_ref := (threeCSS_ref s1)(this \<mapsto> r)\<rparr>)))"

text \<open>
  \<open>Object3D.add\<close> of Three.js: an object is not added to itself; a child is taken from its
  former parent first.
\<close>

definition object_add :: "oref \<Rightarrow> oref \<Rightarrow> ib_state \<Rightarrow> ib_state" where
  "object_add p c s =
     (if c = p then s
      else
        let s1 = (case o_parent (objects s c) of
                    None \<Rightarrow> s
                  | Some q \<Rightarrow> s\<lparr>objects := (objects s)(q := (objects s q)
                                \<lparr>o_children := remove1 c (o_children (objects s q))\<rparr>)\<rparr>);
            s2 = s1\<lparr>objects := (objects s1)(c := (objects s1 c)\<lparr>o_parent := Some p\<rparr>)\<rparr>
        in s2\<lparr>objects := (objects s2)(p := (objects s2 p)
                 \<lparr>o_children := o_children (objects s2 p) @ [c]\<rparr>)\<rparr>)"

text \<open>
  Modelled from the spec: \<open>Motor.setNodeToBeRendered\<close> of core/Motor.ts, which is not among
  the sources. The spec (section 4.6) has a node marked for update added to the set of dirty
  nodes, once however often it is marked.
\<close>

definition needsUpdate :: "ref \<Rightarrow> ib_state \<Rightarrow> ib_state" where
  "needsUpdate this s =
     (let s1 = s\<lparr>willBeRendered := (willBeRendered s)(this := True)\<rparr>
      in s1\<lparr>toBeRendered := insert this (toBeRendered s1)\<rparr>)"

subsection \<open>The scene getter\<close>

text \<open>
  The getter walks up the parent pointers, by recursion, and caches what it finds. On a
  cyclic parent chain it never returns: the walk is bounded by a number of calls, and
  \<open>None\<close> is the walk that did not finish within it.
\<close>

fun scene :: "nat \<Rightarrow> ref \<Rightarrow> ib_state \<Rightarrow> (ref option \<times> ib_state) option" where
  "scene 0 this s = None"
| "scene (Suc k) this s =
     (let parent = parent_ref s this
      in if scene_ref s this \<noteq> None \<or> parent = None then Some (scene_ref s this, s)
         else
           (case parent of
              None \<Rightarrow> Some (scene_ref s this, s)
            | Some p \<Rightarrow>
                if scene_ref s p \<noteq> None then
                  (let s1 = s\<lparr>scene_ref := (scene_ref s)(this := scene_ref s p)\<rparr>
                   in Some (scene_ref s1 this, s1))
                else if isScene s p then
                  (let s1 = s\<lparr>scene_ref := (scene_ref s)(this \<mapsto> p)\<rparr>
                   in Some (scene_ref s1 this, s1))
                else
                  (case scene k p s of
                     None \<Rightarrow> None
                   | Some (r, s0) \<Rightarrow>
                       (let s1 = s0\<lparr>scene_ref := (scene_ref s0)(this := r)\<rparr>
                        in Some (scene_ref s1 this, s1)))))"

text \<open>
  The parent chain above a node ends within \<open>k\<close> steps: the node has fewer than \<open>k\<close>
  ancestors, and is neither on a cycle of parent pointers nor below one.
\<close>

fun chain_ends :: "nat \<Rightarrow> ib_state \<Rightarrow> ref \<Rightarrow> bool" where
  "chain_ends 0 s n = False"
| "chain_ends (Suc k) s n = (case parent_ref s n of None \<Rightarrow> True | Some p \<Rightarrow> chain_ends k s p)"

subsection \<open>Loading the backends\<close>

text \<open>
  The tests \<open>this.scene && this.scene.webgl\<close> and \<open>this.scene && this.scene.enableCss\<close>
  read the getter twice; the second read finds the scene the first one cached and changes
  nothing, so the getter is called once here.
\<close>

text \<open>The expressions \<open>d.three.add(this.three)\<close> and \<open>d.threeCSS.add(this.threeCSS)\<close>.\<close>

definition three_add :: "ref \<Rightarrow> ref \<Rightarrow> ib_state \<Rightarrow> ib_state" where
  "three_add d this s =
     (let (po, s1) = three d s; (co, s2) = three this s1 in object_add po co s2)"

definition threeCSS_add :: "ref \<Rightarrow> ref \<Rightarrow> ib_state \<Rightarrow> (error \<times> ib_state) + ib_state" where
  "threeCSS_add d this s =
     (case threeCSS d s of
        Inl e \<Rightarrow> Inl e
      | Inr (po, s1) \<Rightarrow>
          (case threeCSS this s1 of
             Inl e \<Rightarrow> Inl e
           | Inr (co, s2) \<Rightarrow> Inr (object_add po co s2)))"

text \<open>
  The test \<open>this._isPossiblyDistributedToShadowRoot && this.parent !== this.scene\<close>, which
  reads the scene only when the flag is set.
\<close>

definition distributed_below_node :: "nat \<Rightarrow> ref \<Rightarrow> ib_state \<Rightarrow> (bool \<times> ib_state) option" where
  "distributed_below_node k this s =
     (if isPossiblyDistributedToShadowRoot s this
      then (case scene k this s of
              None \<Rightarrow> None
            | Some (sc, s1) \<Rightarrow> Some (parent_ref s1 this \<noteq> sc, s1))
      else Some (False, s))"

definition connectThree :: "nat \<Rightarrow> ref \<Rightarrow> ib_state \<Rightarrow> ib_state option" where
  "connectThree k this s =
     (case distributed_below_node k this s of
        None \<Rightarrow> None
      | Some (distributed, s1) \<Rightarrow>
          Some (needsUpdate this
            (if distributed then
               (case distributedParent s1 this of
                  None \<Rightarrow> s1
                | Some d \<Rightarrow> three_add d this s1)
             else
               (case shadowRootParent s1 this of
                  Some d \<Rightarrow> three_add d this s1
                | None \<Rightarrow>
                    (case parent_ref s1 this of
                       None \<Rightarrow> s1
                     | Some p \<Rightarrow> three_add p this s1)))))"

definition connectThreeCSS :: "nat \<Rightarrow> ref \<Rightarrow> ib_state \<Rightarrow> ((error \<times> ib_state) + ib_state) option" where
  "connectThreeCSS k this s =
     (case distributed_below_node k this s of
        None \<Rightarrow> None
      | Some (distributed, s1) \<Rightarrow>
          Some (case (if distributed then
                        (case distributedParent s1 this of
                           None \<Rightarrow> Inr s1
                         | Some d \<Rightarrow> threeCSS_add d this s1)
                      else
                        (case shadowRootParent s1 this of
                           Some d \<Rightarrow> threeCSS_add d this s1
                         | None \<Rightarrow>
                             (case parent_ref s1 this of
                                None \<Rightarrow> Inr s1
                              | Some p \<Rightarrow> threeCSS_add p this s1))) of
                  Inl e \<Rightarrow> Inl e
                | Inr s2 \<Rightarrow> Inr (needsUpdate this s2)))"

definition loadGL_node :: "nat \<Rightarrow> ref \<Rightarrow> ib_state \<Rightarrow> (bool \<times> ib_state) option" where
  "loadGL_node k this s =
     (case scene k this s of
        None \<Rightarrow> None
      | Some (sc, s1) \<Rightarrow>
          if \<not> (case sc of None \<Rightarrow> False | Some c \<Rightarrow> webgl s1 c) then Some (False, s1)
          else if glLoaded s1 this then Some (False, s1)
          else
            let s2 = s1\<lparr>glLoaded := (glLoaded s1)(this := True)\<rparr>;
                (r, s3) = three this s2;
                s4 = s3\<lparr>objects := (objects s3)(r := (objects s3 r)\<lparr>o_matrixAutoUpdate := False\<rparr>)\<rparr>
            in case connectThree k this s4 of
                 None \<Rightarrow> None
               | Some s5 \<Rightarrow> Some (True, needsUpdate this s5))"

definition loadCSS_node ::
    "nat \<Rightarrow> ref \<Rightarrow> ib_state \<Rightarrow> ((error \<times> ib_state) + (bool \<times> ib_state)) option" where
  "loadCSS_node k this s =
     (case scene k this s of
        None \<Rightarrow> None
      | Some (sc, s1) \<Rightarrow>
          if \<not> (case sc of None \<Rightarrow> False | Some c \<Rightarrow> enableCss s1 c) then Some (Inr (False, s1))
          else if cssLoaded s1 this then Some (Inr (False, s1))
          else
            let s2 = s1\<lparr>cssLoaded := (cssLoaded s1)(this := True)\<rparr>
            in case threeCSS this s2 of
                 Inl e \<Rightarrow> Some (Inl e)
               | Inr (r, s3) \<Rightarrow>
                   (let s4 = s3\<lparr>objects := (objects s3)(r := (objects s3 r)
                                 \<lparr>o_matrixAutoUpdate := False\<rparr>)\<rparr>
                    in case connectThreeCSS k this s4 of
                         None \<Rightarrow> None
                       | Some (Inl e) \<Rightarrow> Some (Inl e)
                       | Some (Inr s5) \<Rightarrow> Some (Inr (True, needsUpdate this s5))))"

subsection \<open>calculateMatrix\<close>

text \<open>
  \<open>_calculateMatrix\<close>. The four arrays of the module are fields of the state. Every
  \<open>this.three\<close> and \<open>this.threeCSS\<close> is a call of the getter; after the first one the
  getter returns the object it cached, so each is called once here. \<open>updateMatrix\<close> is
  counted.
\<close>

definition set_position :: "oref \<Rightarrow> real xyz \<Rightarrow> ib_state \<Rightarrow> ib_state" where
  "set_position r v s = s\<lparr>objects := (objects s)(r := (objects s r)\<lparr>o_position := v\<rparr>)\<rparr>"

definition set_pivot :: "oref \<Rightarrow> real xyz \<Rightarrow> ib_state \<Rightarrow> ib_state" where
  "set_pivot r v s = s\<lparr>objects := (objects s)(r := (objects s r)\<lparr>o_pivot := v\<rparr>)\<rparr>"

definition updateMatrix :: "oref \<Rightarrow> ib_state \<Rightarrow> ib_state" where
  "updateMatrix r s =
     s\<lparr>objects := (objects s)(r := (objects s r)\<lparr>o_matrixUpdates := Suc (o_matrixUpdates (objects s r))\<rparr>)\<rparr>"

definition calculateMatrix :: "ref \<Rightarrow> ib_state \<Rightarrow> (error \<times> ib_state) + ib_state" where
  "calculateMatrix this s =
     (let align = alignPoint s this;
          mount = mountPoint s this;
          pos = position s this;
          orig = origin s this;
          size = calculatedSize s this;
          s1 = s\<lparr>threeJsPostAdjustment := XYZ (xval size / 2) (yval size / 2) (zval size / 2)\<rparr>;
          psize = parentSize s1 this;
          s2 = s1\<lparr>threeJsPostAdjustment :=
                  XYZ (xval (threeJsPostAdjustment s1) + - xval psize / 2)
                      (yval (threeJsPostAdjustment s1) + - yval psize / 2)
                      (zval (threeJsPostAdjustment s1) + - zval psize / 2)\<rparr>;
          s3 = s2\<lparr>alignAdjustment :=
                  XYZ (xval psize * xval align) (yval psize * yval align) (zval psize * zval align)\<rparr>;
          s4 = s3\<lparr>mountPointAdjustment :=
                  XYZ (xval size * xval mount) (yval size * yval mount) (zval size * zval mount)\<rparr>;
          s5 = s4\<lparr>appliedPosition :=
                  XYZ (xval pos + xval (alignAdjustment s4) - xval (mountPointAdjustment s4))
                      (yval pos + yval (alignAdjustment s4) - yval (mountPointAdjustment s4))
                      (zval pos + zval (alignAdjustment s4) - zval (mountPointAdjustment s4))\<rparr>;
          ap = appliedPosition s5;
          post = threeJsPostAdjustment s5;
          (t3, s6) = three this s5;
          s7 = set_position t3
                 (XYZ (xval ap + xval post) (- (yval ap + yval post)) (zval ap + zval post)) s6
      in case threeCSS this s7 of
           Inl e \<Rightarrow> Inl e
         | Inr (tc, s8) \<Rightarrow>
             (let childOfScene =
                    (case o_parent (objects s8 tc) of
                       None \<Rightarrow> False
                     | Some q \<Rightarrow> o_type (objects s8 q) = ''Scene'');
                  s9 = (if childOfScene then
                          set_position tc
                            (XYZ (xval ap + xval post) (- (yval ap + yval post)) (zval ap + zval post)) s8
                        else
                          set_position tc (XYZ (xval ap) (- yval ap) (zval ap + zval post)) s8);
                  s10 = (if xval orig \<noteq> 0.5 \<or> yval orig \<noteq> 0.5 \<or> zval orig \<noteq> 0.5 then
                           (let pv = XYZ (xval orig * xval size - xval size / 2)
                                         (- (yval orig * yval size - yval size / 2))
                                         (zval orig * zval size - zval size / 2)
                            in set_pivot tc pv (set_pivot t3 pv s9))
                         else set_pivot tc (XYZ 0 0 0) (set_pivot t3 (XYZ 0 0 0) s9))
              in Inr (updateMatrix tc (updateMatrix t3 s10))))"

text \<open>
  A scene with its flags and one node below it, nothing loaded and no Three.js object
  created yet: the state of the examples.
\<close>

definition ib_init :: "bool \<Rightarrow> bool \<Rightarrow> ib_state" where
  "ib_init gl css =
     \<lparr>isScene = (\<lambda>n. n = 0), isNode = (\<lambda>n. n \<noteq> 0), isHTMLElement = (\<lambda>n. True),
      elem_tagName = (\<lambda>n. if n = 0 then ''LUME-SCENE'' else ''LUME-NODE''), elem_id = (\<lambda>n. []),
      parent_ref = (\<lambda>n. if n = 1 then Some 0 else None),
      scene_ref = (\<lambda>n. if n = 0 then Some 0 else None),
      webgl = (\<lambda>n. n = 0 \<and> gl), enableCss = (\<lambda>n. n = 0 \<and> css),
      three_ref = (\<lambda>n. None), threeCSS_ref = (\<lambda>n. None),
      glLoaded = (\<lambda>n. False), cssLoaded = (\<lambda>n. False), willBeRendered = (\<lambda>n. False),
      isPossiblyDistributedToShadowRoot = (\<lambda>n. False),
      distributedParent = (\<lambda>n. None), shadowRootParent = (\<lambda>n. None),
      alignPoint = (\<lambda>n. XYZ 0 0 0), mountPoint = (\<lambda>n. XYZ 0 0 0), position = (\<lambda>n. XYZ 0 0 0),
      origin = (\<lambda>n. XYZ 0.5 0.5 0.5), calculatedSize = (\<lambda>n. XYZ 0 0 0),
      parentSize = (\<lambda>n. XYZ 0 0 0),
      objects = (\<lambda>r. new_object []), next_obj = 0, toBeRendered = {},
      threeJsPostAdjustment = XYZ 0 0 0, alignAdjustment = XYZ 0 0 0,
      mountPointAdjustment = XYZ 0 0 0, appliedPosition = XYZ 0 0 0\<rparr>"

text \<open>A node of 100 by 50 in a parent of 800 by 600, aligned to the parent's centre.\<close>

definition example_node :: ib_state where
  "example_node = (ib_init False True)
     \<lparr>position := (\<lambda>n. XYZ 10 20 0), alignPoint := (\<lambda>n. XYZ 0.5 0.5 0),
      mountPoint := (\<lambda>n. XYZ 1 0.5 0), calculatedSize := (\<lambda>n. XYZ 100 50 0),
      parentSize := (\<lambda>n. XYZ 800 600 0)\<rparr>"

text \<open>
  Two nodes that are each other's parent, as \<open>add(1, 2)\<close> followed by \<open>add(2, 1)\<close>
  leaves them, with no scene cached on either.
\<close>

definition example_cycle :: ib_state where
  "example_cycle = (ib_init True True)
     \<lparr>parent_ref := (\<lambda>n. if n = 1 then Some 2 else if n = 2 then Some 1 else None)\<rparr>"

section \<open>Resolved sizes (the size autoruns of ImperativeBase, Scene.ts, Sizeable)\<close>

text \<open>
  What the size computation reads and writes of a node: its size mode and size, its align
  point, its resolved size (\<open>calculatedSize\<close>) and the flag set by \<open>needsUpdate\<close>. The
  tree is taken as the children arrays give it, a node with the list of its subtrees.
\<close>

datatype size_mode = literal | proportional | match_parent

datatype axis = AxisX | AxisY | AxisZ

definition component :: "axis \<Rightarrow> 'a xyz \<Rightarrow> 'a" where
  "component a v = (case a of AxisX \<Rightarrow> xval v | AxisY \<Rightarrow> yval v | AxisZ \<Rightarrow> zval v)"

record sized =
  n_sizeMode :: "size_mode xyz"
  n_size :: "real xyz"
  n_alignPoint :: "real xyz"
  n_calculatedSize :: "real xyz"
  n_willBeRendered :: bool

datatype scene_tree = Subtree sized "scene_tree list"

text \<open>
  Modelled from the spec: \<open>_calcSize\<close> of core/Sizeable.ts, which is not among the sources.
  The spec (section 4.2) resolves each axis by its mode: \<open>literal\<close> is the node's own stored
  size, \<open>proportional\<close> is the parent's resolved size times the stored size, \<open>match-parent\<close>
  is the size observed for the parent, the stored size ignored. The parent size is what
  \<open>_getParentSize()\<close> returns: the resolved size of the parent, or for a scene without a
  parent the size observed of the element it is mounted in.
\<close>

definition resolve_axis :: "size_mode \<Rightarrow> real \<Rightarrow> real \<Rightarrow> real" where
  "resolve_axis m stored psize =
     (case m of literal \<Rightarrow> stored | proportional \<Rightarrow> psize * stored | match_parent \<Rightarrow> psize)"

definition calcSize :: "real xyz \<Rightarrow> sized \<Rightarrow> sized" where
  "calcSize psize p =
     p\<lparr>n_calculatedSize :=
         XYZ (resolve_axis (xval (n_sizeMode p)) (xval (n_size p)) (xval psize))
             (resolve_axis (yval (n_sizeMode p)) (yval (n_size p)) (yval psize))
             (resolve_axis (zval (n_sizeMode p)) (zval (n_size p)) (zval psize))\<rparr>"

text \<open>
  The fourth autorun of \<open>connectedCallback\<close>: without a parent it returns; with one it
  reads the parent's resolved size and, when an axis is proportional or the align point is
  not zero, calls \<open>_calcSize\<close> and \<open>needsUpdate\<close>. The result says whether the resolved size
  was written.
\<close>

definition parentSizeAutorun :: "real xyz option \<Rightarrow> sized \<Rightarrow> sized \<times> bool" where
  "parentSizeAutorun parent p =
     (case parent of
        None \<Rightarrow> (p, False)
      | Some psize \<Rightarrow>
          if xval (n_sizeMode p) = proportional \<or>
             yval (n_sizeMode p) = proportional \<or>
             zval (n_sizeMode p) = proportional \<or>
             xval (n_alignPoint p) \<noteq> 0 \<or>
             yval (n_alignPoint p) \<noteq> 0 \<or>
             zval (n_alignPoint p) \<noteq> 0
          then ((calcSize psize p)\<lparr>n_willBeRendered := True\<rparr>, True)
          else (p, False))"

text \<open>
  Modelled from the spec: the re-runs of \<open>autorun\<close> (@lume/element, not among the sources).
  The spec (sections 4.2 and 4.5) has a write to an input run the computations again that read
  it, parents before children. The autorun above of each child reads the resolved size of its
  parent: when that is written, the autorun of every child runs again, and where it writes the
  child's resolved size, so do those of the child's children.
\<close>

fun parent_resized :: "real xyz \<Rightarrow> scene_tree \<Rightarrow> scene_tree" where
  "parent_resized psize (Subtree p cs) =
     (let r = parentSizeAutorun (Some psize) p
      in Subtree (fst r)
           (if snd r then map (parent_resized (n_calculatedSize (fst r))) cs else cs))"

text \<open>
  The third autorun of \<open>connectedCallback\<close> reads \<open>sizeMode\<close> and \<open>size\<close> and calls
  \<open>_calcSize\<close>; the fifth calls \<open>needsUpdate\<close> after a write to either. So after a write
  to the size or the size mode of a node, its size is resolved again and its children follow.
\<close>

definition size_changed :: "real xyz \<Rightarrow> scene_tree \<Rightarrow> scene_tree" where
  "size_changed psize t =
     (case t of Subtree p cs \<Rightarrow>
        (let p1 = (calcSize psize p)\<lparr>n_willBeRendered := True\<rparr>
         in Subtree p1 (map (parent_resized (n_calculatedSize p1)) cs)))"

definition set_size :: "real xyz \<Rightarrow> real xyz \<Rightarrow> scene_tree \<Rightarrow> scene_tree" where
  "set_size v psize t =
     (case t of Subtree p cs \<Rightarrow> size_changed psize (Subtree (p\<lparr>n_size := v\<rparr>) cs))"

definition set_sizeMode :: "size_mode xyz \<Rightarrow> real xyz \<Rightarrow> scene_tree \<Rightarrow> scene_tree" where
  "set_sizeMode m psize t =
     (case t of Subtree p cs \<Rightarrow> size_changed psize (Subtree (p\<lparr>n_sizeMode := m\<rparr>) cs))"

text \<open>
  \<open>#onElementParentSizeChange\<close> of Scene: the observed size of the element is stored,
  \<open>_calcSize\<close> and \<open>needsUpdate\<close> are called on the scene, and the children follow.
\<close>

definition onElementParentSizeChange :: "real xyz \<Rightarrow> scene_tree \<Rightarrow> real xyz \<times> scene_tree" where
  "onElementParentSizeChange newSize t = (newSize, size_changed newSize t)"

text \<open>
  A node is addressed by the indices of the children on the way down from the root; the
  parent size of a node below is the resolved size of the node above.
\<close>

primrec at_path ::
    "nat list \<Rightarrow> (real xyz \<Rightarrow> scene_tree \<Rightarrow> scene_tree) \<Rightarrow> real xyz \<Rightarrow> scene_tree \<Rightarrow> scene_tree" where
  "at_path [] f psize t = f psize t"
| "at_path (i # is) f psize t =
     (case t of Subtree p cs \<Rightarrow>
        if i < length cs
        then Subtree p (cs[i := at_path is f (n_calculatedSize p) (cs ! i)])
        else t)"

primrec node_at :: "nat list \<Rightarrow> real xyz \<Rightarrow> scene_tree \<Rightarrow> (real xyz \<times> sized) option" where
  "node_at [] psize t = (case t of Subtree p cs \<Rightarrow> Some (psize, p))"
| "node_at (i # is) psize t =
     (case t of Subtree p cs \<Rightarrow>
        if i < length cs then node_at is (n_calculatedSize p) (cs ! i) else None)"

text \<open>
  What can change a resolved size: the element a scene is mounted in is resized, or the size
  or the size mode of some node is written. A state is the observed size of the element and
  the tree below the scene.
\<close>

datatype size_event =
    HostResize "real xyz"
  | SetSize "nat list" "real xyz"
  | SetSizeMode "nat list" "size_mode xyz"

definition size_step :: "size_event \<Rightarrow> real xyz \<times> scene_tree \<Rightarrow> real xyz \<times> scene_tree" where
  "size_step ev st =
     (case ev of
        HostResize v \<Rightarrow> onElementParentSizeChange v (snd st)
      | SetSize path v \<Rightarrow> (fst st, at_path path (set_size v) (fst st) (snd st))
      | SetSizeMode path m \<Rightarrow> (fst st, at_path path (set_sizeMode m) (fst st) (snd st)))"

fun size_steps :: "size_event list \<Rightarrow> real xyz \<times> scene_tree \<Rightarrow> real xyz \<times> scene_tree" where
  "size_steps [] st = st"
| "size_steps (ev # evs) st = size_steps evs (size_step ev st)"

text \<open>
  Settled: on every axis where a node is proportional, its resolved size is the parent's
  resolved size times its stored size; and so below it.
\<close>

definition proportional_ok :: "real xyz \<Rightarrow> sized \<Rightarrow> bool" where
  "proportional_ok psize p \<longleftrightarrow>
     (\<forall>a. component a (n_sizeMode p) = proportional \<longrightarrow>
        component a (n_calculatedSize p) = component a psize * component a (n_size p))"

fun settled :: "real xyz \<Rightarrow> scene_tree \<Rightarrow> bool" where
  "settled psize (Subtree p cs) \<longleftrightarrow>
     proportional_ok psize p \<and> (\<forall>c \<in> set cs. settled (n_calculatedSize p) c)"

text \<open>The subtrees of a node are settled against its resolved size, whatever its own is.\<close>

definition below_settled :: "scene_tree \<Rightarrow> bool" where
  "below_settled t = (case t of Subtree p cs \<Rightarrow> \<forall>c \<in> set cs. settled (n_calculatedSize p) c)"

text \<open>
  The scenario of the spec: a scene that follows the element it is mounted in, a child of half
  its size on two axes, and below it a child of literal size 100 by 50; nothing resolved yet.
\<close>

definition unresolved :: "size_mode xyz \<Rightarrow> real xyz \<Rightarrow> sized" where
  "unresolved m v = \<lparr>n_sizeMode = m, n_size = v, n_alignPoint = XYZ 0 0 0,
     n_calculatedSize = XYZ 0 0 0, n_willBeRendered = False\<rparr>"

definition example_child :: scene_tree where
  "example_child =
     Subtree (unresolved (XYZ proportional proportional literal) (XYZ 0.5 0.5 0))
       [Subtree (unresolved (XYZ literal literal literal) (XYZ 100 50 0)) []]"

definition example_tree :: scene_tree where
  "example_tree =
     Subtree (unresolved (XYZ match_parent match_parent literal) (XYZ 1 1 0)) [example_child]"

section \<open>Properties of TreeNode\<close>

subsection \<open>indexOf and splice\<close>

lemma indexOf_bounds: "x \<in> set xs \<Longrightarrow> 0 \<le> indexOf xs x \<and> indexOf xs x < int (length xs)"
  by (induction xs) (auto simp: Let_def)

lemma indexOf_absent: "x \<notin> set xs \<Longrightarrow> indexOf xs x = - 1"
  by (induction xs) (auto simp: Let_def)

lemma take_drop_indexOf:
  "x \<in> set xs \<Longrightarrow> take (nat (indexOf xs x)) xs @ drop (Suc (nat (indexOf xs x))) xs = remove1 x xs"
proof (induction xs)
  case Nil then show ?case by simp
next
  case (Cons y ys)
  show ?case
  proof (cases "y = x")
    case True then show ?thesis by simp
  next
    case False
    with Cons.prems have in_ys: "x \<in> set ys" by simp
    from indexOf_bounds [OF in_ys] have "nat (indexOf ys x + 1) = Suc (nat (indexOf ys x))" by linarith
    with False in_ys Cons.IH indexOf_bounds [OF in_ys] show ?thesis by (simp add: Let_def)
  qed
qed

lemma splice1_indexOf: "x \<in> set xs \<Longrightarrow> splice1 xs (indexOf xs x) = remove1 x xs"
  using indexOf_bounds [of x xs] take_drop_indexOf [of x xs]
  by (simp add: splice1_def Let_def min_def)

lemma splice1_absent: "x \<notin> set xs \<Longrightarrow> splice1 xs (indexOf xs x) = butlast xs"
  by (cases "xs = []") (simp_all add: splice1_def indexOf_absent Let_def butlast_conv_take max_def nat_diff_distrib)

subsection \<open>The calls preserve the invariant\<close>

lemma removeNode_consistent:
  assumes "consistent s" "removeNode p v s = Inr s'"
  shows "consistent s'"
  using assms
  apply (cases v)
  apply (auto simp: removeNode_def consistent_def write_parent_def schedule_def defer_fn_def Let_def splice1_indexOf split: if_splits)
  done

lemma removeNode_throws: "removeNode p v s = Inl (e, s') \<Longrightarrow> s' = s"
  by (auto simp: removeNode_def Let_def split: jsval.splits if_splits)

lemma detach_returns:
  "\<exists>s1. (case node_parent s c of None \<Rightarrow> Inr s | Some q \<Rightarrow> removeNode q (TreeNodeRef c) s) = Inr s1"
  by (cases "node_parent s c") (simp_all add: removeNode_def Let_def)

lemma add_total: "\<exists>s'. add p (TreeNodeRef c) s = Inr s'"
  using detach_returns [of s c] by (auto simp: add_def Let_def)

lemma add_throws:
  assumes "add p v s = Inl (e, s')" shows "s' = s"
proof (cases v)
  case NotATreeNode
  with assms show ?thesis by (simp add: add_def)
next
  case (TreeNodeRef c)
  with assms add_total [of p c s] show ?thesis by auto
qed

lemma add_node_parent:
  "add p (TreeNodeRef c) s = Inr s' \<Longrightarrow>
   node_parent s' = (if node_parent s c = Some p then node_parent s else (node_parent s)(c \<mapsto> p))"
  by (auto simp: add_def removeNode_def write_parent_def schedule_def defer_fn_def Let_def split: option.splits if_splits)

lemma removeNode_node_parent:
  "removeNode p (TreeNodeRef c) s = Inr s' \<Longrightarrow> node_parent s' = (node_parent s)(c := None)"
  by (auto simp: removeNode_def write_parent_def schedule_def defer_fn_def Let_def split: if_splits)

lemma add_consistent:
  assumes "consistent s" "add p v s = Inr s'"
  shows "consistent s'"
proof (cases v)
  case NotATreeNode
  with assms show ?thesis by (simp add: add_def)
next
  case (TreeNodeRef c)
  show ?thesis
  proof (cases "node_parent s c = Some p")
    case True
    with assms TreeNodeRef show ?thesis by (simp add: add_def)
  next
    case False
    from detach_returns obtain s1 where
      s1: "(case node_parent s c of None \<Rightarrow> Inr s | Some q \<Rightarrow> removeNode q (TreeNodeRef c) s) = Inr s1"
      by blast
    have c1: "consistent s1" using s1 assms(1) removeNode_consistent
      by (auto split: option.splits)
    have np: "node_parent s1 c = None" using s1
      by (auto simp: removeNode_def write_parent_def schedule_def defer_fn_def Let_def split: option.splits if_splits)
    have s': "s' = defer_fn (ConnectedTask p c)
        (s1\<lparr>node_parent := (node_parent s1)(c \<mapsto> p),
            scheduled := schedule c (scheduled s1),
            arrays := (arrays s1)(ChildrenOf p := children s1 p @ [c]),
            node_isConnected := (node_isConnected s1)(c := True)\<rparr>)"
      using assms(2) TreeNodeRef False s1 by (simp add: add_def write_parent_def Let_def)
    from c1 np have notin: "\<And>b. c \<notin> set (children s1 b)" by (simp add: consistent_def)
    show ?thesis unfolding s' using c1 np notin
      by (auto simp: consistent_def write_parent_def schedule_def defer_fn_def)
  qed
qed

lemma state_after_consistent:
  assumes "consistent s" shows "consistent (state_after (exec c s))"
proof (cases "exec c s")
  case (Inl a)
  obtain e s' where a: "a = (e, s')" by (cases a)
  with Inl have "s' = s" by (cases c) (auto simp: exec_def dest: add_throws removeNode_throws)
  with Inl a assms show ?thesis by (simp add: state_after_def)
next
  case (Inr s')
  then have "consistent s'" using assms
    by (cases c) (auto simp: exec_def dest: add_consistent removeNode_consistent)
  with Inr show ?thesis by (simp add: state_after_def)
qed

lemma run_consistent: "consistent s \<Longrightarrow> consistent (run cs s)"
  by (induction cs arbitrary: s) (simp_all add: state_after_consistent)

subsection \<open>Parent links stay acyclic unless a node is added below itself\<close>

lemma acyclic_parents_iff: "acyclic_parents s \<longleftrightarrow> acyclic (parent_rel s)"
  by (simp add: acyclic_parents_def is_ancestor_def acyclic_def)

lemma parent_rel_unset: "parent_rel (s\<lparr>node_parent := (node_parent s)(c := None)\<rparr>) \<subseteq> parent_rel s"
  by (auto simp: parent_rel_def split: if_splits)

lemma parent_rel_set:
  "parent_rel (s\<lparr>node_parent := (node_parent s)(c \<mapsto> p)\<rparr>) \<subseteq> insert (c, p) (parent_rel s)"
  by (auto simp: parent_rel_def split: if_splits)

lemma parent_rel_cong: "node_parent s' = node_parent s \<Longrightarrow> parent_rel s' = parent_rel s"
  by (simp add: parent_rel_def)

lemma removeNode_acyclic:
  assumes "acyclic_parents s" "removeNode p v s = Inr s'"
  shows "acyclic_parents s'"
proof (cases v)
  case NotATreeNode
  with assms show ?thesis by (simp add: removeNode_def)
next
  case (TreeNodeRef c)
  with assms(2) have "node_parent s' = (node_parent s)(c := None)"
    by (simp add: removeNode_node_parent)
  then have "parent_rel s' \<subseteq> parent_rel s"
    by (auto simp: parent_rel_def split: if_splits)
  with assms(1) show ?thesis
    unfolding acyclic_parents_iff by (rule acyclic_subset)
qed

lemma add_acyclic:
  assumes "acyclic_parents s" "add p (TreeNodeRef c) s = Inr s'"
    and "c \<noteq> p" "\<not> is_ancestor s c p"
  shows "acyclic_parents s'"
proof -
  let ?r = "parent_rel s"
  have sub: "parent_rel s' \<subseteq> insert (c, p) ?r"
    using add_node_parent [OF assms(2)] by (auto simp: parent_rel_def split: if_splits)
  from assms(3,4) have "(p, c) \<notin> ?r\<^sup>*"
    by (auto simp: is_ancestor_def dest: rtranclD)
  with assms(1) have "acyclic (insert (c, p) ?r)"
    by (simp add: acyclic_insert acyclic_parents_iff)
  from this sub show ?thesis
    unfolding acyclic_parents_iff by (rule acyclic_subset)
qed

lemma run_acyclic:
  "acyclic_parents s \<Longrightarrow> cycle_free_calls cs s \<Longrightarrow> acyclic_parents (run cs s)"
proof (induction cs arbitrary: s)
  case Nil
  then show ?case by simp
next
  case (Cons c cs)
  have "acyclic_parents (state_after (exec c s))"
  proof (cases "exec c s")
    case (Inl a)
    obtain e s' where a: "a = (e, s')" by (cases a)
    with Inl have "s' = s" by (cases c) (auto simp: exec_def dest: add_throws removeNode_throws)
    with Inl a Cons.prems show ?thesis by (simp add: state_after_def)
  next
    case (Inr s')
    have "acyclic_parents s'"
    proof (cases c)
      case (Add p v)
      show ?thesis
      proof (cases v)
        case NotATreeNode
        with Add Inr show ?thesis by (simp add: exec_def add_def)
      next
        case (TreeNodeRef n)
        with Add Inr Cons.prems show ?thesis
          by (auto simp: exec_def intro: add_acyclic)
      qed
    next
      case (RemoveNode p v)
      with Inr Cons.prems show ?thesis
        by (auto simp: exec_def intro: removeNode_acyclic)
    qed
    with Inr show ?thesis by (simp add: state_after_def)
  qed
  with Cons show ?case by simp
qed

lemma consistent_init: "consistent init"
  by (simp add: consistent_def init_def)

lemma parent_rel_init: "parent_rel init = {}"
  by (simp add: parent_rel_def init_def)

lemma acyclic_parents_init: "acyclic_parents init"
  by (simp add: acyclic_parents_def is_ancestor_def parent_rel_init)


lemma not_ancestor_of_childless:
  assumes "\<forall>x. node_parent s x \<noteq> Some a" shows "\<not> is_ancestor s a n"
proof
  assume "is_ancestor s a n"
  then have "(n, a) \<in> (parent_rel s)\<^sup>+" by (simp add: is_ancestor_def)
  then obtain x where "(x, a) \<in> parent_rel s" by (auto dest: tranclD2)
  with assms show False by (simp add: parent_rel_def)
qed


subsection \<open>What one call does\<close>

lemma add_unfold:
  assumes "node_parent s c \<noteq> Some p"
  shows "add p (TreeNodeRef c) s =
    (case node_parent s c of
       None \<Rightarrow> Inr (s\<lparr>node_parent := (node_parent s)(c \<mapsto> p),
           arrays := (arrays s)(ChildrenOf p := children s p @ [c]),
           node_isConnected := (node_isConnected s)(c := True),
           deferred := deferred s @ [ConnectedTask p c],
           scheduled := schedule c (scheduled s)\<rparr>)
     | Some q \<Rightarrow> Inr (s\<lparr>node_parent := (node_parent s)(c \<mapsto> p),
           arrays := (arrays s)(ChildrenOf q := splice1 (children s q) (indexOf (children s q) c),
              ChildrenOf p := children s p @ [c]),
           node_isConnected := (node_isConnected s)(c := True),
           deferred := deferred s @ [DisconnectedTask q c, ConnectedTask p c],
           scheduled := schedule c (scheduled s)\<rparr>))"
  using assms
  by (auto simp: add_def removeNode_def write_parent_def schedule_def defer_fn_def Let_def fun_upd_twist split: option.splits)

lemma add_same_parent: "node_parent s c = Some p \<Longrightarrow> add p (TreeNodeRef c) s = Inr s"
  by (simp add: add_def)

lemma removeNode_unfold:
  assumes "node_parent s c = Some p"
  shows "removeNode p (TreeNodeRef c) s =
     Inr (s\<lparr>node_parent := (node_parent s)(c := None),
           arrays := (arrays s)(ChildrenOf p := splice1 (children s p) (indexOf (children s p) c)),
           node_isConnected := (node_isConnected s)(c := False),
           deferred := deferred s @ [DisconnectedTask p c],
           scheduled := schedule c (scheduled s)\<rparr>)"
  using assms by (simp add: removeNode_def write_parent_def schedule_def defer_fn_def Let_def)

lemma is_ancestor_parent: "node_parent s n = Some a \<Longrightarrow> is_ancestor s a n"
  by (simp add: is_ancestor_def parent_rel_def r_into_trancl)

lemma rtrancl_avoid_source:
  assumes "(a, c) \<in> r\<^sup>*" shows "(a, c) \<in> {(x, y). (x, y) \<in> r \<and> x \<noteq> c}\<^sup>*"
  using assms
proof (induction rule: converse_rtrancl_induct)
  case base
  show ?case by simp
next
  case (step y z)
  show ?case
  proof (cases "y = c")
    case True then show ?thesis by simp
  next
    case False
    with step.hyps(1) have "(y, z) \<in> {(x, y). (x, y) \<in> r \<and> x \<noteq> c}" by simp
    from this step.IH show ?thesis by (rule converse_rtrancl_into_rtrancl)
  qed
qed

lemma add_closes_cycle:
  assumes "is_ancestor s c p" "add p (TreeNodeRef c) s = Inr s'"
  shows "is_ancestor s' c c"
proof (cases "node_parent s c = Some p")
  case True
  then have "(c, p) \<in> parent_rel s" by (simp add: parent_rel_def)
  moreover from assms(1) have "(p, c) \<in> (parent_rel s)\<^sup>+" by (simp add: is_ancestor_def)
  ultimately have "(c, c) \<in> (parent_rel s)\<^sup>+" by (rule trancl_into_trancl2)
  moreover from True assms(2) have "s' = s" by (simp add: add_def)
  ultimately show ?thesis by (simp add: is_ancestor_def)
next
  case False
  with add_node_parent [OF assms(2)] have np: "node_parent s' = (node_parent s)(c \<mapsto> p)" by simp
  from assms(1) have "(p, c) \<in> (parent_rel s)\<^sup>*" by (simp add: is_ancestor_def)
  then have "(p, c) \<in> {(x, y). (x, y) \<in> parent_rel s \<and> x \<noteq> c}\<^sup>*"
    by (rule rtrancl_avoid_source)
  moreover have "{(x, y). (x, y) \<in> parent_rel s \<and> x \<noteq> c} \<subseteq> parent_rel s'"
    using np by (auto simp: parent_rel_def)
  ultimately have "(p, c) \<in> (parent_rel s')\<^sup>*" using rtrancl_mono by blast
  moreover from np have "(c, p) \<in> parent_rel s'" by (simp add: parent_rel_def)
  ultimately have "(c, c) \<in> (parent_rel s')\<^sup>+" by (rule rtrancl_into_trancl2 [rotated])
  then show ?thesis by (simp add: is_ancestor_def)
qed

subsection \<open>Deferred closures see the tree as the calls left it\<close>

lemma same_tree_refl [simp]: "same_tree s s"
  by (simp add: same_tree_def)

lemma same_tree_trans: "same_tree a b \<Longrightarrow> same_tree b c \<Longrightarrow> same_tree a c"
  by (simp add: same_tree_def)

lemma run_task_same_tree:
  "same_tree (snd (run_task t s)) s \<and> (\<forall>ob \<in> set (fst (run_task t s)). same_tree (snd ob) s)"
  by (cases t) (simp_all add: run_task_def call_def same_tree_def)

lemma run_task_fired: "fired (snd (run_task t s)) = fired s @ callbacks_of t"
  by (cases t) (simp_all add: run_task_def call_def callbacks_of_def)

lemma run_task_deferred: "deferred (snd (run_task t s)) = deferred s"
  by (cases t) (simp_all add: run_task_def call_def)

lemma run_deferred_same_tree:
  "same_tree (snd (run_deferred s)) s \<and> (\<forall>ob \<in> set (fst (run_deferred s)). same_tree (snd ob) s)"
proof (induction s rule: run_deferred.induct)
  case (1 s)
  show ?case
  proof (cases "deferred s")
    case Nil
    then show ?thesis by (simp add: run_deferred.simps)
  next
    case (Cons t ts)
    let ?s0 = "s\<lparr>deferred := ts\<rparr>"
    let ?r = "run_task t ?s0"
    have s0: "same_tree ?s0 s" by (simp add: same_tree_def)
    from run_task_same_tree [of t ?s0] s0
    have r: "same_tree (snd ?r) s" "\<forall>ob \<in> set (fst ?r). same_tree (snd ob) s"
      by (auto intro: same_tree_trans)
    from "1.IH" [OF Cons refl] r(1)
    have r': "same_tree (snd (run_deferred (snd ?r))) s"
       "\<forall>ob \<in> set (fst (run_deferred (snd ?r))). same_tree (snd ob) s"
      by (auto intro: same_tree_trans)
    from Cons r r' show ?thesis
      by (subst (1 2) run_deferred.simps) (auto simp: Let_def)
  qed
qed

lemma run_deferred_fired:
  "fired (snd (run_deferred s)) = fired s @ concat (map callbacks_of (deferred s)) \<and>
   deferred (snd (run_deferred s)) = []"
proof (induction s rule: run_deferred.induct)
  case (1 s)
  show ?case
  proof (cases "deferred s")
    case Nil
    then show ?thesis by (simp add: run_deferred.simps)
  next
    case (Cons t ts)
    from "1.IH" [OF Cons refl] Cons show ?thesis
      by (subst (1 2) run_deferred.simps) (simp add: Let_def run_task_fired run_task_deferred)
  qed
qed

lemma run_task_callbacks: "map fst (fst (run_task t s)) = callbacks_of t"
  by (cases t) (simp_all add: run_task_def call_def callbacks_of_def)

lemma run_deferred_callbacks:
  "map fst (fst (run_deferred s)) = concat (map callbacks_of (deferred s))"
proof (induction s rule: run_deferred.induct)
  case (1 s)
  show ?case
  proof (cases "deferred s")
    case Nil
    then show ?thesis by (simp add: run_deferred.simps)
  next
    case (Cons t ts)
    from "1.IH" [OF Cons refl] Cons show ?thesis
      by (subst run_deferred.simps) (simp add: Let_def run_task_callbacks run_task_deferred)
  qed
qed

lemma run_reactions_nodes: "map fst (fst (run_reactions ns s)) = ns"
  by (induction ns arbitrary: s) (simp_all add: Let_def)

lemma run_scheduled_nodes: "map fst (fst (run_scheduled s)) = scheduled s"
  by (simp add: run_scheduled_def run_reactions_nodes)

subsection \<open>Observers see the tree as the completed calls left it\<close>

lemma same_tree_sym: "same_tree a b \<Longrightarrow> same_tree b a"
  by (simp add: same_tree_def)

lemma run_reactions_same_tree:
  "same_tree (snd (run_reactions ns s)) s \<and> (\<forall>ob \<in> set (fst (run_reactions ns s)). same_tree (snd ob) s)"
proof (induction ns arbitrary: s)
  case Nil
  show ?case by simp
next
  case (Cons n ns)
  let ?s1 = "s\<lparr>reran := reran s @ [n]\<rparr>"
  have "same_tree ?s1 s" by (simp add: same_tree_def)
  with Cons.IH [of ?s1] show ?case by (auto simp: Let_def intro: same_tree_trans)
qed

lemma run_scheduled_same_tree:
  "same_tree (snd (run_scheduled s)) s \<and> (\<forall>ob \<in> set (fst (run_scheduled s)). same_tree (snd ob) s)"
proof -
  have "same_tree (s\<lparr>scheduled := []\<rparr>) s" by (simp add: same_tree_def)
  with run_reactions_same_tree [of "scheduled s" "s\<lparr>scheduled := []\<rparr>"] show ?thesis
    by (auto simp: run_scheduled_def intro: same_tree_trans)
qed

lemma removeNode_same_tree:
  "same_tree a b \<Longrightarrow> same_tree (state_after (removeNode p v a)) (state_after (removeNode p v b))"
  by (cases v)
     (auto simp: same_tree_def removeNode_def write_parent_def defer_fn_def Let_def state_after_def)

lemma add_same_tree:
  assumes "same_tree a b"
  shows "same_tree (state_after (add p v a)) (state_after (add p v b))"
proof (cases v)
  case NotATreeNode
  with assms show ?thesis by (simp add: add_def state_after_def)
next
  case (TreeNodeRef c)
  from assms have eq: "node_parent a = node_parent b" "arrays a = arrays b"
    "node_isConnected a = node_isConnected b" by (simp_all add: same_tree_def)
  show ?thesis
  proof (cases "node_parent b c = Some p")
    case True
    with TreeNodeRef eq assms show ?thesis by (simp add: add_def state_after_def)
  next
    case False
    with TreeNodeRef eq show ?thesis
      by (simp add: add_unfold same_tree_def state_after_def split: option.splits)
  qed
qed

lemma exec_same_tree:
  "same_tree a b \<Longrightarrow> same_tree (state_after (exec c a)) (state_after (exec c b))"
  by (cases c) (simp_all add: exec_def add_same_tree removeNode_same_tree)

lemma session_same_tree_gen:
  "same_tree a b \<Longrightarrow> same_tree (session ts a) (run (calls_of ts) b)"
proof (induction ts arbitrary: a b)
  case Nil
  then show ?case by simp
next
  case (Cons t ts)
  show ?case
  proof (cases t)
    case (Call c)
    with Cons show ?thesis by (simp add: exec_same_tree)
  next
    case RunDeferred
    from run_deferred_same_tree [of a] Cons.prems have "same_tree (snd (run_deferred a)) b"
      by (blast intro: same_tree_trans)
    with RunDeferred Cons.IH show ?thesis by simp
  next
    case RunScheduled
    from run_scheduled_same_tree [of a] Cons.prems have "same_tree (snd (run_scheduled a)) b"
      by (blast intro: same_tree_trans)
    with RunScheduled Cons.IH show ?thesis by simp
  qed
qed

lemma observers_see_completed_calls:
  "(\<forall>ob \<in> set (fst (run_deferred (session ts s))). same_tree (snd ob) (run (calls_of ts) s)) \<and>
   (\<forall>ob \<in> set (fst (run_scheduled (session ts s))). same_tree (snd ob) (run (calls_of ts) s))"
  using run_deferred_same_tree [of "session ts s"] run_scheduled_same_tree [of "session ts s"]
    session_same_tree_gen [of s s ts]
  by (auto intro: same_tree_trans)

subsection \<open>Arrays other than the one mutated\<close>

lemma mutate_all_other: "b \<noteq> a \<Longrightarrow> arrays (mutate_all a ms s) b = arrays s b"
  by (induction ms arbitrary: s) (simp_all add: mutate_def)

lemma mutate_all_next_copy: "next_copy (mutate_all a ms s) = next_copy s"
  by (induction ms arbitrary: s) (simp_all add: mutate_def)

subsection \<open>C1: parent pointers, children arrays and cycles\<close>

text \<open>
  C1, as the code has it. From any state in which parent pointers and children arrays agree
  (the freshly constructed nodes of \<open>init\<close> are one), after every sequence of \<open>add\<close>
  and \<open>removeNode\<close> calls, whether they return or throw, a node \<open>a\<close> is an element of
  the children array of \<open>b\<close> exactly when the parent pointer of \<open>a\<close> is \<open>b\<close>.
  Neither method looks for cycles: parent links stay free of cycles only as long as no call
  adds a node to itself or to one of its descendants.
\<close>

theorem parent_children_consistent_after_calls:
  assumes "consistent s"
  shows "(\<forall>a b. a \<in> set (children (run cs s) b) \<longleftrightarrow> node_parent (run cs s) a = Some b) \<and>
         (acyclic_parents s \<and> cycle_free_calls cs s \<longrightarrow> acyclic_parents (run cs s))"
  using run_consistent [OF assms, of cs] run_acyclic [of s cs]
  by (simp add: consistent_def)

theorem parent_children_consistent_witness:
  "consistent init \<and> acyclic_parents init \<and>
   cycle_free_calls [Add 0 (TreeNodeRef 1), Add 0 (TreeNodeRef 2), Add 1 (TreeNodeRef 2),
      RemoveNode 0 (TreeNodeRef 1)] init \<and>
   (\<forall>a b. a \<in> set (children (run [Add 0 (TreeNodeRef 1), Add 0 (TreeNodeRef 2), Add 1 (TreeNodeRef 2),
      RemoveNode 0 (TreeNodeRef 1)] init) b) \<longleftrightarrow>
      node_parent (run [Add 0 (TreeNodeRef 1), Add 0 (TreeNodeRef 2), Add 1 (TreeNodeRef 2),
      RemoveNode 0 (TreeNodeRef 1)] init) a = Some b) \<and>
   acyclic_parents (run [Add 0 (TreeNodeRef 1), Add 0 (TreeNodeRef 2), Add 1 (TreeNodeRef 2),
      RemoveNode 0 (TreeNodeRef 1)] init)"
proof -
  let ?cs = "[Add 0 (TreeNodeRef 1), Add 0 (TreeNodeRef 2), Add 1 (TreeNodeRef 2),
      RemoveNode 0 (TreeNodeRef 1)]"
  have c: "cycle_free_calls ?cs init"
    by (simp add: exec_def state_after_def add_def removeNode_def write_parent_def schedule_def defer_fn_def init_def Let_def
        not_ancestor_of_childless)
  from parent_children_consistent_after_calls [OF consistent_init, of ?cs] c
    consistent_init acyclic_parents_init
  show ?thesis by blast
qed

text \<open>
  C1 as stated fails: \<open>add\<close> of a fresh node to itself returns normally and leaves
  the node its own parent.
\<close>

theorem self_add_counterexample:
  "consistent init \<and> acyclic_parents init \<and>
   node_parent (run [Add 0 (TreeNodeRef 0)] init) 0 = Some 0 \<and>
   \<not> acyclic_parents (run [Add 0 (TreeNodeRef 0)] init)"
proof -
  let ?s = "run [Add 0 (TreeNodeRef 0)] init"
  have p: "node_parent ?s 0 = Some 0"
    by (simp add: exec_def state_after_def add_def write_parent_def schedule_def defer_fn_def init_def Let_def)
  then have "(0, 0) \<in> (parent_rel ?s)\<^sup>+"
    by (intro r_into_trancl) (simp add: parent_rel_def)
  then have "\<not> acyclic_parents ?s"
    by (auto simp: acyclic_parents_def is_ancestor_def)
  with p consistent_init acyclic_parents_init show ?thesis by blast
qed

subsection \<open>C2: adding a node below itself\<close>

text \<open>
  C2, as the code has it. \<open>add\<close> has no check for cycles and no error for one. For every
  parent \<open>p\<close> and node \<open>c\<close> such that \<open>c\<close> is an ancestor of \<open>p\<close> (and is
  not already a child of \<open>p\<close>), \<open>add\<close> returns normally: the parent pointer of \<open>c\<close>
  is \<open>p\<close>, \<open>c\<close> is appended to the children of \<open>p\<close>, \<open>c\<close> counts as connected, and
  \<open>c\<close> is now its own ancestor.
\<close>

theorem add_below_itself_accepted:
  assumes "is_ancestor s c p" "node_parent s c \<noteq> Some p"
  shows "\<exists>s'. add p (TreeNodeRef c) s = Inr s' \<and> node_parent s' c = Some p \<and>
           children s' p = children s p @ [c] \<and> node_isConnected s' c \<and> is_ancestor s' c c"
proof -
  from add_total obtain s' where s': "add p (TreeNodeRef c) s = Inr s'" by blast
  have "node_parent s' c = Some p \<and> children s' p = children s p @ [c] \<and> node_isConnected s' c"
    using s' assms(2) by (auto simp: add_unfold split: option.splits)
  moreover have "is_ancestor s' c c" using assms(1) s' by (rule add_closes_cycle)
  ultimately show ?thesis using s' by blast
qed

theorem add_below_itself_accepted_witness:
  "is_ancestor (run [Add 1 (TreeNodeRef 2)] init) 1 2 \<and>
   node_parent (run [Add 1 (TreeNodeRef 2)] init) 1 \<noteq> Some 2 \<and>
   (\<exists>s'. add 2 (TreeNodeRef 1) (run [Add 1 (TreeNodeRef 2)] init) = Inr s' \<and>
      node_parent s' 1 = Some 2 \<and> children s' 2 = [1] \<and> node_isConnected s' 1 \<and>
      is_ancestor s' 1 1)"
proof -
  let ?s = "run [Add 1 (TreeNodeRef 2)] init"
  have a: "is_ancestor ?s 1 2"
    by (rule is_ancestor_parent) (simp add: exec_def state_after_def add_def write_parent_def schedule_def defer_fn_def init_def Let_def)
  have b: "node_parent ?s 1 \<noteq> Some 2"
    by (simp add: exec_def state_after_def add_def write_parent_def schedule_def defer_fn_def init_def Let_def)
  have c: "children ?s 2 = []"
    by (simp add: exec_def state_after_def add_def write_parent_def schedule_def defer_fn_def init_def Let_def)
  from add_below_itself_accepted [OF a b] a b c show ?thesis by simp
qed

text \<open>
  C2 as stated fails: with node 2 a child of node 1, \<open>add\<close> of 1 to 2 does not throw, and
  it changes the parent pointer of 1 and the children of 2.
\<close>

theorem add_ancestor_counterexample:
  "is_ancestor (run [Add 1 (TreeNodeRef 2)] init) 1 2 \<and>
   \<not> isl (add 2 (TreeNodeRef 1) (run [Add 1 (TreeNodeRef 2)] init)) \<and>
   node_parent (run [Add 1 (TreeNodeRef 2)] init) 1 = None \<and>
   node_parent (state_after (add 2 (TreeNodeRef 1) (run [Add 1 (TreeNodeRef 2)] init))) 1 = Some 2 \<and>
   children (run [Add 1 (TreeNodeRef 2)] init) 2 = [] \<and>
   children (state_after (add 2 (TreeNodeRef 1) (run [Add 1 (TreeNodeRef 2)] init))) 2 = [1]"
proof -
  let ?s = "run [Add 1 (TreeNodeRef 2)] init"
  have a: "is_ancestor ?s 1 2"
    by (rule is_ancestor_parent) (simp add: exec_def state_after_def add_def write_parent_def schedule_def defer_fn_def init_def Let_def)
  show ?thesis using a
    by (simp add: exec_def state_after_def add_def write_parent_def schedule_def defer_fn_def init_def Let_def)
qed

subsection \<open>C6: removeNode of a node that is not a child\<close>

text \<open>
  C6. For every parent \<open>p\<close> and node \<open>c\<close> whose parent pointer is not \<open>p\<close>,
  \<open>removeNode\<close> throws (a ReferenceError) from within the call, before any assignment:
  the state at the throw is the state before the call, so every parent pointer, children
  array and connectivity flag is as before, and nothing was deferred.
\<close>

theorem removeNode_not_a_child_rejected:
  "node_parent s c \<noteq> Some p \<Longrightarrow> removeNode p (TreeNodeRef c) s = Inl (ReferenceError, s)"
  by (simp add: removeNode_def)

theorem removeNode_not_a_child_rejected_witness:
  "node_parent init 1 \<noteq> Some 0 \<and> removeNode 0 (TreeNodeRef 1) init = Inl (ReferenceError, init)"
  using removeNode_not_a_child_rejected [of init 1 0] by (simp add: init_def)

subsection \<open>C7: adding a child that already has a parent\<close>

text \<open>
  C7, as the code has it. For a child \<open>c\<close> whose parent is \<open>q\<close>: when \<open>q\<close> is the very
  node \<open>add\<close> is called on, the call returns at once and changes nothing (the child keeps
  its place among its siblings). When \<open>q\<close> is another node, \<open>add\<close> first removes
  \<open>c\<close> from the children of \<open>q\<close> and then attaches it to \<open>p\<close>, as the last of its
  children, atomically, with no intermediate observable disconnected state: during the call
  no life cycle callback runs and no computation reading the parent pointer runs again (the
  two closures are queued behind the pending ones, the re-run is scheduled once), and
  whenever these observers run, after any further calls and drains of the two queues, each
  of them reads the tree as the calls completed so far have left it, never the state
  between the detaching and the attaching. With no call in between, each of them finds
  \<open>c\<close> attached to \<open>p\<close> and connected.
\<close>

theorem add_moves_child:
  assumes "consistent s" "node_parent s c = Some q"
  shows "(q = p \<longrightarrow> add p (TreeNodeRef c) s = Inr s) \<and>
         (q \<noteq> p \<longrightarrow>
            (\<exists>s'. add p (TreeNodeRef c) s = Inr s' \<and>
               node_parent s' c = Some p \<and>
               children s' q = remove1 c (children s q) \<and> c \<notin> set (children s' q) \<and>
               children s' p = children s p @ [c] \<and>
               node_isConnected s' c \<and>
               fired s' = fired s \<and> reran s' = reran s \<and>
               deferred s' = deferred s @ [DisconnectedTask q c, ConnectedTask p c] \<and>
               scheduled s' = schedule c (scheduled s) \<and>
               (\<forall>ts. (\<forall>ob \<in> set (fst (run_deferred (session ts s'))).
                        same_tree (snd ob) (run (calls_of ts) s')) \<and>
                     (\<forall>ob \<in> set (fst (run_scheduled (session ts s'))).
                        same_tree (snd ob) (run (calls_of ts) s'))) \<and>
               (\<forall>ob \<in> set (fst (run_deferred s')).
                  node_parent (snd ob) c = Some p \<and> node_isConnected (snd ob) c) \<and>
               (\<forall>ob \<in> set (fst (run_scheduled s')).
                  node_parent (snd ob) c = Some p \<and> node_isConnected (snd ob) c)))"
proof (intro conjI impI)
  assume "q = p"
  with assms(2) show "add p (TreeNodeRef c) s = Inr s" by (simp add: add_same_parent)
next
  assume qp: "q \<noteq> p"
  let ?s' = "s\<lparr>node_parent := (node_parent s)(c \<mapsto> p),
           arrays := (arrays s)(ChildrenOf q := splice1 (children s q) (indexOf (children s q) c),
              ChildrenOf p := children s p @ [c]),
           node_isConnected := (node_isConnected s)(c := True),
           deferred := deferred s @ [DisconnectedTask q c, ConnectedTask p c],
           scheduled := schedule c (scheduled s)\<rparr>"
  from assms(2) qp have ad: "add p (TreeNodeRef c) s = Inr ?s'"
    by (simp add: add_unfold)
  from assms have mem: "c \<in> set (children s q)" and dist: "distinct (children s q)"
    by (simp_all add: consistent_def)
  have ch: "children ?s' q = remove1 c (children s q)"
    using qp mem by (simp add: splice1_indexOf)
  with dist have notin: "c \<notin> set (children ?s' q)" by simp
  have obs: "\<forall>ob \<in> set (fst (run_deferred ?s')).
      node_parent (snd ob) c = Some p \<and> node_isConnected (snd ob) c"
    using run_deferred_same_tree [of ?s'] by (auto simp: same_tree_def)
  have obs2: "\<forall>ob \<in> set (fst (run_scheduled ?s')).
      node_parent (snd ob) c = Some p \<and> node_isConnected (snd ob) c"
    using run_scheduled_same_tree [of ?s'] by (auto simp: same_tree_def)
  have later: "\<forall>ts. (\<forall>ob \<in> set (fst (run_deferred (session ts ?s'))).
                        same_tree (snd ob) (run (calls_of ts) ?s')) \<and>
                     (\<forall>ob \<in> set (fst (run_scheduled (session ts ?s'))).
                        same_tree (snd ob) (run (calls_of ts) ?s'))"
    using observers_see_completed_calls by blast
  have rest: "node_parent ?s' c = Some p" "children ?s' p = children s p @ [c]"
    "node_isConnected ?s' c" "fired ?s' = fired s" "reran ?s' = reran s"
    "deferred ?s' = deferred s @ [DisconnectedTask q c, ConnectedTask p c]"
    "scheduled ?s' = schedule c (scheduled s)"
    using qp by simp_all
  show "\<exists>s'. add p (TreeNodeRef c) s = Inr s' \<and>
               node_parent s' c = Some p \<and>
               children s' q = remove1 c (children s q) \<and> c \<notin> set (children s' q) \<and>
               children s' p = children s p @ [c] \<and>
               node_isConnected s' c \<and>
               fired s' = fired s \<and> reran s' = reran s \<and>
               deferred s' = deferred s @ [DisconnectedTask q c, ConnectedTask p c] \<and>
               scheduled s' = schedule c (scheduled s) \<and>
               (\<forall>ts. (\<forall>ob \<in> set (fst (run_deferred (session ts s'))).
                        same_tree (snd ob) (run (calls_of ts) s')) \<and>
                     (\<forall>ob \<in> set (fst (run_scheduled (session ts s'))).
                        same_tree (snd ob) (run (calls_of ts) s'))) \<and>
               (\<forall>ob \<in> set (fst (run_deferred s')).
                  node_parent (snd ob) c = Some p \<and> node_isConnected (snd ob) c) \<and>
               (\<forall>ob \<in> set (fst (run_scheduled s')).
                  node_parent (snd ob) c = Some p \<and> node_isConnected (snd ob) c)"
    using ad ch notin obs obs2 later rest by (intro exI [of _ ?s'] conjI) assumption+
qed

theorem add_moves_child_witness:
  "consistent (run [Add 0 (TreeNodeRef 1)] init) \<and>
   node_parent (run [Add 0 (TreeNodeRef 1)] init) 1 = Some 0 \<and>
   add 0 (TreeNodeRef 1) (run [Add 0 (TreeNodeRef 1)] init) = Inr (run [Add 0 (TreeNodeRef 1)] init) \<and>
   (\<exists>s'. add 2 (TreeNodeRef 1) (run [Add 0 (TreeNodeRef 1)] init) = Inr s' \<and>
      node_parent s' 1 = Some 2 \<and> children s' 0 = [] \<and> children s' 2 = [1] \<and>
      node_isConnected s' 1 \<and> fired s' = [] \<and> reran s' = [] \<and>
      deferred s' = [ConnectedTask 0 1, DisconnectedTask 0 1, ConnectedTask 2 1] \<and>
      scheduled s' = [1] \<and>
      map fst (fst (run_deferred s')) =
        [connected 1, childConnected 0 1, disconnected 1, childDisconnected 0 1,
         connected 1, childConnected 2 1] \<and>
      map fst (fst (run_scheduled s')) = [1] \<and>
      (\<forall>ob \<in> set (fst (run_deferred s')). node_parent (snd ob) 1 = Some 2 \<and> node_isConnected (snd ob) 1) \<and>
      (\<forall>ob \<in> set (fst (run_scheduled s')). node_parent (snd ob) 1 = Some 2 \<and> node_isConnected (snd ob) 1) \<and>
      (\<forall>ob \<in> set (fst (run_deferred (session [Call (RemoveNode 2 (TreeNodeRef 1))] s'))).
         node_parent (snd ob) 1 = None \<and> \<not> node_isConnected (snd ob) 1))"
proof -
  let ?s = "run [Add 0 (TreeNodeRef 1)] init"
  have c: "consistent ?s" using consistent_init by (rule run_consistent)
  have p: "node_parent ?s 1 = Some 0"
    by (simp add: exec_def state_after_def add_def write_parent_def schedule_def defer_fn_def init_def Let_def)
  have v: "children ?s 0 = [1]" "children ?s 2 = []" "fired ?s = []" "reran ?s = []"
    "deferred ?s = [ConnectedTask 0 1]" "scheduled ?s = [1]"
    by (simp_all add: exec_def state_after_def add_def write_parent_def schedule_def defer_fn_def init_def Let_def)
  from add_moves_child [OF c p, of 0] have same: "add 0 (TreeNodeRef 1) ?s = Inr ?s" by simp
  from add_moves_child [OF c p, of 2, THEN conjunct2] have "\<exists>s'. add 2 (TreeNodeRef 1) ?s = Inr s' \<and>
               node_parent s' 1 = Some 2 \<and>
               children s' 0 = remove1 1 (children ?s 0) \<and> 1 \<notin> set (children s' 0) \<and>
               children s' 2 = children ?s 2 @ [1] \<and>
               node_isConnected s' 1 \<and>
               fired s' = fired ?s \<and> reran s' = reran ?s \<and>
               deferred s' = deferred ?s @ [DisconnectedTask 0 1, ConnectedTask 2 1] \<and>
               scheduled s' = schedule 1 (scheduled ?s) \<and>
               (\<forall>ts. (\<forall>ob \<in> set (fst (run_deferred (session ts s'))).
                        same_tree (snd ob) (run (calls_of ts) s')) \<and>
                     (\<forall>ob \<in> set (fst (run_scheduled (session ts s'))).
                        same_tree (snd ob) (run (calls_of ts) s'))) \<and>
               (\<forall>ob \<in> set (fst (run_deferred s')).
                  node_parent (snd ob) 1 = Some 2 \<and> node_isConnected (snd ob) 1) \<and>
               (\<forall>ob \<in> set (fst (run_scheduled s')).
                  node_parent (snd ob) 1 = Some 2 \<and> node_isConnected (snd ob) 1)"
    by (rule mp) simp
  then obtain s' where s':
    "add 2 (TreeNodeRef 1) ?s = Inr s'" "node_parent s' 1 = Some 2"
    "children s' 0 = remove1 1 (children ?s 0)" "children s' 2 = children ?s 2 @ [1]"
    "node_isConnected s' 1" "fired s' = fired ?s" "reran s' = reran ?s"
    "deferred s' = deferred ?s @ [DisconnectedTask 0 1, ConnectedTask 2 1]"
    "scheduled s' = schedule 1 (scheduled ?s)"
    and later: "\<forall>ts. (\<forall>ob \<in> set (fst (run_deferred (session ts s'))).
                        same_tree (snd ob) (run (calls_of ts) s')) \<and>
                     (\<forall>ob \<in> set (fst (run_scheduled (session ts s'))).
                        same_tree (snd ob) (run (calls_of ts) s'))"
    and now: "\<forall>ob \<in> set (fst (run_deferred s')). node_parent (snd ob) 1 = Some 2 \<and> node_isConnected (snd ob) 1"
      "\<forall>ob \<in> set (fst (run_scheduled s')). node_parent (snd ob) 1 = Some 2 \<and> node_isConnected (snd ob) 1"
    by (elim exE conjE) blast
  have rm: "node_parent (run [RemoveNode 2 (TreeNodeRef 1)] s') 1 = None \<and>
      \<not> node_isConnected (run [RemoveNode 2 (TreeNodeRef 1)] s') 1"
    using s'(2) by (simp add: exec_def state_after_def removeNode_unfold)
  from later have "(\<forall>ob \<in> set (fst (run_deferred (session [Call (RemoveNode 2 (TreeNodeRef 1))] s'))).
      same_tree (snd ob) (run (calls_of [Call (RemoveNode 2 (TreeNodeRef 1))]) s'))"
    by blast
  then have "\<forall>ob \<in> set (fst (run_deferred (session [Call (RemoveNode 2 (TreeNodeRef 1))] s'))).
      same_tree (snd ob) (run [RemoveNode 2 (TreeNodeRef 1)] s')"
    by simp
  with rm have after: "\<forall>ob \<in> set (fst (run_deferred (session [Call (RemoveNode 2 (TreeNodeRef 1))] s'))).
         node_parent (snd ob) 1 = None \<and> \<not> node_isConnected (snd ob) 1"
    by (simp add: same_tree_def)
  have cbs: "map fst (fst (run_deferred s')) =
        [connected 1, childConnected 0 1, disconnected 1, childDisconnected 0 1,
         connected 1, childConnected 2 1]"
    unfolding run_deferred_callbacks s'(8) v by (simp add: callbacks_of_def)
  have nodes: "map fst (fst (run_scheduled s')) = [1]"
    unfolding run_scheduled_nodes s'(9) v by (simp add: schedule_def)
  have vals: "children s' 0 = []" "children s' 2 = [1]" "fired s' = []" "reran s' = []"
    "deferred s' = [ConnectedTask 0 1, DisconnectedTask 0 1, ConnectedTask 2 1]"
    "scheduled s' = [1]"
    unfolding s'(3,4,6,7,8,9) v by (simp_all add: schedule_def)
  show ?thesis
    using c p same s'(1,2) vals(1,2) s'(5) vals(3-6) cbs nodes now after
    by (intro conjI exI [of _ s']) assumption+
qed

text \<open>
  C7 as stated fails where the child's parent is the node \<open>add\<close> is called on: with
  children 1 and 2 of node 0, adding 1 to 0 again leaves the state as it is, 1 is not moved
  to the end.
\<close>

theorem readd_same_parent_counterexample:
  "node_parent (run [Add 0 (TreeNodeRef 1), Add 0 (TreeNodeRef 2)] init) 1 = Some 0 \<and>
   children (run [Add 0 (TreeNodeRef 1), Add 0 (TreeNodeRef 2)] init) 0 = [1, 2] \<and>
   add 0 (TreeNodeRef 1) (run [Add 0 (TreeNodeRef 1), Add 0 (TreeNodeRef 2)] init) =
     Inr (run [Add 0 (TreeNodeRef 1), Add 0 (TreeNodeRef 2)] init)"
proof -
  let ?s = "run [Add 0 (TreeNodeRef 1), Add 0 (TreeNodeRef 2)] init"
  have p: "node_parent ?s 1 = Some 0"
    by (simp add: exec_def state_after_def add_def write_parent_def schedule_def defer_fn_def init_def Let_def)
  have c: "children ?s 0 = [1, 2]"
    by (simp add: exec_def state_after_def add_def write_parent_def schedule_def defer_fn_def init_def Let_def)
  have "add 0 (TreeNodeRef 1) ?s = Inr ?s"
    unfolding add_def using p by simp
  with p c show ?thesis by blast
qed

subsection \<open>C8: the mutation is complete when the call returns, the callbacks come later\<close>

text \<open>
  C8. When \<open>add\<close> returns (for a child that was not already a child of \<open>p\<close>), the
  child's parent pointer is \<open>p\<close>, it is the last element of the children of \<open>p\<close> and its
  connectivity flag is set; when \<open>removeNode\<close> returns, the parent pointer is null, the
  child is gone from the children of \<open>p\<close> and the flag is cleared. In both cases no callback
  has run during the call (\<open>fired\<close> is unchanged) and the closure that calls
  \<open>connected\<close>/\<open>childConnected\<close> (\<open>disconnected\<close>/\<open>childDisconnected\<close>) is the last
  of the deferred queue. Emptying the queue then runs the callbacks of every queued closure in
  order, and each of them sees exactly the tree the calls left: never a half-applied state.
\<close>

theorem mutation_done_callbacks_pending:
  assumes "consistent s"
  shows "(node_parent s c \<noteq> Some p \<longrightarrow>
            (\<exists>s'. add p (TreeNodeRef c) s = Inr s' \<and>
               node_parent s' c = Some p \<and> last (children s' p) = c \<and> node_isConnected s' c \<and>
               fired s' = fired s \<and> last (deferred s') = ConnectedTask p c \<and>
               fired (snd (run_deferred s')) = fired s' @ concat (map callbacks_of (deferred s')) \<and>
               (\<forall>ob \<in> set (fst (run_deferred s')). same_tree (snd ob) s'))) \<and>
         (node_parent s c = Some p \<longrightarrow>
            (\<exists>s'. removeNode p (TreeNodeRef c) s = Inr s' \<and>
               node_parent s' c = None \<and> c \<notin> set (children s' p) \<and> \<not> node_isConnected s' c \<and>
               fired s' = fired s \<and> last (deferred s') = DisconnectedTask p c \<and>
               fired (snd (run_deferred s')) = fired s' @ concat (map callbacks_of (deferred s')) \<and>
               (\<forall>ob \<in> set (fst (run_deferred s')). same_tree (snd ob) s')))"
proof (intro conjI impI)
  assume np: "node_parent s c \<noteq> Some p"
  from add_total obtain s' where s': "add p (TreeNodeRef c) s = Inr s'" by blast
  have "node_parent s' c = Some p \<and> last (children s' p) = c \<and> node_isConnected s' c \<and>
        fired s' = fired s \<and> last (deferred s') = ConnectedTask p c"
    using s' np by (auto simp: add_unfold split: option.splits)
  with s' run_deferred_fired [of s'] run_deferred_same_tree [of s']
  show "\<exists>s'. add p (TreeNodeRef c) s = Inr s' \<and>
               node_parent s' c = Some p \<and> last (children s' p) = c \<and> node_isConnected s' c \<and>
               fired s' = fired s \<and> last (deferred s') = ConnectedTask p c \<and>
               fired (snd (run_deferred s')) = fired s' @ concat (map callbacks_of (deferred s')) \<and>
               (\<forall>ob \<in> set (fst (run_deferred s')). same_tree (snd ob) s')"
    by blast
next
  assume p: "node_parent s c = Some p"
  let ?s' = "s\<lparr>node_parent := (node_parent s)(c := None),
           arrays := (arrays s)(ChildrenOf p := splice1 (children s p) (indexOf (children s p) c)),
           node_isConnected := (node_isConnected s)(c := False),
           deferred := deferred s @ [DisconnectedTask p c],
           scheduled := schedule c (scheduled s)\<rparr>"
  from p have rm: "removeNode p (TreeNodeRef c) s = Inr ?s'" by (rule removeNode_unfold)
  from assms p have "c \<in> set (children s p)" "distinct (children s p)"
    by (simp_all add: consistent_def)
  then have "c \<notin> set (children ?s' p)" by (simp add: splice1_indexOf)
  with rm run_deferred_fired [of ?s'] run_deferred_same_tree [of ?s']
  show "\<exists>s'. removeNode p (TreeNodeRef c) s = Inr s' \<and>
               node_parent s' c = None \<and> c \<notin> set (children s' p) \<and> \<not> node_isConnected s' c \<and>
               fired s' = fired s \<and> last (deferred s') = DisconnectedTask p c \<and>
               fired (snd (run_deferred s')) = fired s' @ concat (map callbacks_of (deferred s')) \<and>
               (\<forall>ob \<in> set (fst (run_deferred s')). same_tree (snd ob) s')"
    by (intro exI [of _ ?s']) simp
qed

theorem mutation_done_callbacks_pending_witness:
  "consistent init \<and> node_parent init 1 \<noteq> Some 0 \<and>
   (\<exists>s'. add 0 (TreeNodeRef 1) init = Inr s' \<and>
      node_parent s' 1 = Some 0 \<and> children s' 0 = [1] \<and> node_isConnected s' 1 \<and>
      fired s' = [] \<and> deferred s' = [ConnectedTask 0 1] \<and>
      fired (snd (run_deferred s')) = [connected 1, childConnected 0 1] \<and>
      (\<exists>s''. removeNode 0 (TreeNodeRef 1) s' = Inr s'' \<and>
         node_parent s'' 1 = None \<and> children s'' 0 = [] \<and> \<not> node_isConnected s'' 1 \<and>
         fired s'' = [] \<and> deferred s'' = [ConnectedTask 0 1, DisconnectedTask 0 1] \<and>
         fired (snd (run_deferred s'')) =
           [connected 1, childConnected 0 1, disconnected 1, childDisconnected 0 1]))"
proof -
  have np: "node_parent init 1 \<noteq> Some 0" by (simp add: init_def)
  let ?s' = "state_after (add 0 (TreeNodeRef 1) init)"
  have ad: "add 0 (TreeNodeRef 1) init = Inr ?s'"
    by (simp add: state_after_def add_def write_parent_def schedule_def defer_fn_def init_def Let_def)
  have v: "node_parent ?s' 1 = Some 0" "children ?s' 0 = [1]" "node_isConnected ?s' 1"
     "fired ?s' = []" "deferred ?s' = [ConnectedTask 0 1]"
    by (simp_all add: state_after_def add_def write_parent_def schedule_def defer_fn_def init_def Let_def)
  have c': "consistent ?s'" using consistent_init ad by (rule add_consistent)
  from mutation_done_callbacks_pending [OF consistent_init, of 1 0] np ad v
  have f1: "fired (snd (run_deferred ?s')) = [connected 1, childConnected 0 1]"
    by (auto simp: callbacks_of_def)
  let ?s'' = "state_after (removeNode 0 (TreeNodeRef 1) ?s')"
  have rm: "removeNode 0 (TreeNodeRef 1) ?s' = Inr ?s''"
    using v(1) by (simp add: state_after_def removeNode_unfold)
  have w: "node_parent ?s'' 1 = None" "\<not> node_isConnected ?s'' 1" "fired ?s'' = []"
     "deferred ?s'' = [ConnectedTask 0 1, DisconnectedTask 0 1]"
    using v by (simp_all add: removeNode_unfold state_after_def [of "Inr _"])
  have w2: "children ?s'' 0 = []"
    using v by (simp add: removeNode_unfold state_after_def [of "Inr _"] splice1_def Let_def)
  from mutation_done_callbacks_pending [OF c', of 1 0] v(1) rm w
  have f2: "fired (snd (run_deferred ?s'')) =
           [connected 1, childConnected 0 1, disconnected 1, childDisconnected 0 1]"
    by (auto simp: callbacks_of_def)
  from ad v f1 rm w w2 f2 consistent_init np show ?thesis by blast
qed

subsection \<open>C10: subnodes returns a copy\<close>

text \<open>
  C10. \<open>subnodes\<close> returns a new array holding the node's children. Whatever sequence of
  mutations (push, pop, splice, reverse, any rewriting) is applied to the returned array, the
  children array of every node is unchanged, \<open>childCount\<close> is unchanged, and a later read
  of \<open>subnodes\<close> returns yet another array, holding the same children as before.
\<close>

theorem subnodes_returns_copy:
  "(let (a, s1) = subnodes n s;
        s2 = mutate_all a ms s1;
        (a', s3) = subnodes n s2
    in arrays s1 a = children s n \<and>
       children s2 m = children s m \<and>
       childCount n s2 = childCount n s \<and>
       arrays s3 a' = children s n \<and>
       a' \<noteq> a)"
  by (simp add: subnodes_def Let_def childCount_def mutate_all_other mutate_all_next_copy)

theorem subnodes_returns_copy_witness:
  "children (run [Add 0 (TreeNodeRef 1), Add 0 (TreeNodeRef 2)] init) 0 = [1, 2] \<and>
   arrays (mutate_all (fst (subnodes 0 (run [Add 0 (TreeNodeRef 1), Add 0 (TreeNodeRef 2)] init)))
       [Push 7, Reverse, Splice 0 1 []]
       (snd (subnodes 0 (run [Add 0 (TreeNodeRef 1), Add 0 (TreeNodeRef 2)] init))))
     (fst (subnodes 0 (run [Add 0 (TreeNodeRef 1), Add 0 (TreeNodeRef 2)] init))) = [2, 1] \<and>
   children (mutate_all (fst (subnodes 0 (run [Add 0 (TreeNodeRef 1), Add 0 (TreeNodeRef 2)] init)))
       [Push 7, Reverse, Splice 0 1 []]
       (snd (subnodes 0 (run [Add 0 (TreeNodeRef 1), Add 0 (TreeNodeRef 2)] init)))) 0 = [1, 2] \<and>
   childCount 0 (mutate_all (fst (subnodes 0 (run [Add 0 (TreeNodeRef 1), Add 0 (TreeNodeRef 2)] init)))
       [Push 7, Reverse, Splice 0 1 []]
       (snd (subnodes 0 (run [Add 0 (TreeNodeRef 1), Add 0 (TreeNodeRef 2)] init)))) = 2"
proof -
  let ?s = "run [Add 0 (TreeNodeRef 1), Add 0 (TreeNodeRef 2)] init"
  let ?ms = "[Push 7, Reverse, Splice 0 1 []]"
  have c: "children ?s 0 = [1, 2]"
    by (simp add: exec_def state_after_def add_def write_parent_def schedule_def defer_fn_def init_def Let_def)
  have a: "arrays (mutate_all (fst (subnodes 0 ?s)) ?ms (snd (subnodes 0 ?s))) (fst (subnodes 0 ?s)) = [2, 1]"
    by (simp add: subnodes_def Let_def mutate_def array_apply_def
        exec_def state_after_def add_def write_parent_def schedule_def defer_fn_def init_def)
  from subnodes_returns_copy [of 0 ?s ?ms 0] c a show ?thesis
    by (simp add: Let_def split_beta childCount_def)
qed

section \<open>Properties of GltfModelBehavior\<close>

subsection \<open>The version never decreases, and a restart increases it\<close>

lemma js_incr_ge: "v \<le> js_incr v"
  by (simp add: js_incr_def)

lemma js_incr_gt: "v < 2 ^ 53 \<Longrightarrow> v < js_incr v"
  by (simp add: js_incr_def)

lemma version_cleanupModel [simp]: "version (cleanupModel s) = version s"
  by (simp add: cleanupModel_def Let_def split: option.splits)

lemma stopFns_cleanupModel [simp]: "stopFns (cleanupModel s) = stopFns s"
  by (simp add: cleanupModel_def Let_def split: option.splits)

lemma ready_cleanupModel [simp]: "ready (cleanupModel s) = ready s"
  by (simp add: cleanupModel_def ready_def Let_def split: option.splits)

lemma load_autorun_version: "version (state_after (load_autorun s)) = js_incr (version s)"
  by (simp add: load_autorun_def loadObj_def state_after_def Let_def split: option.splits)

lemma load_autorun_stopFns: "stopFns (state_after (load_autorun s)) = stopFns s"
  by (simp add: load_autorun_def loadObj_def state_after_def Let_def split: option.splits)

lemma load_autorun_ready:
  "ready s \<Longrightarrow> \<exists>s'. load_autorun s = Inr s' \<and> ready s'"
  by (simp add: load_autorun_def loadObj_def Let_def ready_def cleanupModel_def split: option.splits)

lemma draco_autorun_version: "version (state_after (draco_autorun b s)) = version s"
  by (simp add: draco_autorun_def state_after_def Let_def split: option.splits)

lemma draco_autorun_stopFns: "stopFns (state_after (draco_autorun b s)) = stopFns s"
  by (simp add: draco_autorun_def state_after_def Let_def split: option.splits)

lemma draco_autorun_ready:
  "ready s \<Longrightarrow> \<exists>s'. draco_autorun b s = Inr s' \<and> ready s'"
  by (auto simp: draco_autorun_def Let_def ready_def)

lemma state_after_Inr [simp]: "state_after (Inr s) = s"
  by (simp add: state_after_def)

lemma state_after_Inl [simp]: "state_after (Inl (e, s)) = s"
  by (simp add: state_after_def)

lemma rerun_version_mono: "version s \<le> version (state_after (rerun p as s))"
proof (induction as arbitrary: s)
  case Nil
  show ?case by simp
next
  case (Cons a as)
  show ?case
  proof (cases "reads a p")
    case False
    with Cons.IH show ?thesis by simp
  next
    case True
    let ?r = "case a of DracoAutorun \<Rightarrow> draco_autorun False s | LoadAutorun \<Rightarrow> load_autorun s"
    have v: "version s \<le> version (state_after ?r)"
      by (cases a) (simp_all add: draco_autorun_version load_autorun_version js_incr_ge)
    show ?thesis
    proof (cases ?r)
      case (Inl e)
      with True v show ?thesis by (cases e) simp
    next
      case (Inr s1)
      with v have "version s \<le> version s1" by simp
      also have "\<dots> \<le> version (state_after (rerun p as s1))" by (rule Cons.IH)
      finally show ?thesis using True Inr by simp
    qed
  qed
qed

lemma rerun_stopFns: "stopFns (state_after (rerun p as s)) = stopFns s"
proof (induction as arbitrary: s)
  case Nil
  show ?case by simp
next
  case (Cons a as)
  show ?case
  proof (cases "reads a p")
    case False
    with Cons.IH show ?thesis by simp
  next
    case True
    let ?r = "case a of DracoAutorun \<Rightarrow> draco_autorun False s | LoadAutorun \<Rightarrow> load_autorun s"
    have v: "stopFns (state_after ?r) = stopFns s"
      by (cases a) (simp_all add: draco_autorun_stopFns load_autorun_stopFns)
    show ?thesis
    proof (cases ?r)
      case (Inl e)
      with True v show ?thesis by (cases e) simp
    next
      case (Inr s1)
      with v Cons.IH [of s1] True show ?thesis by simp
    qed
  qed
qed

lemma rerun_ready:
  "ready s \<Longrightarrow> \<exists>s'. rerun p as s = Inr s' \<and> ready s' \<and>
     (LoadAutorun \<in> set as \<and> version s < 2 ^ 53 \<longrightarrow> version s < version s')"
proof (induction as arbitrary: s)
  case Nil
  then show ?case by simp
next
  case (Cons a as)
  show ?case
  proof (cases a)
    case DracoAutorun
    show ?thesis
    proof (cases "reads a p")
      case False
      with Cons DracoAutorun show ?thesis by simp
    next
      case True
      from draco_autorun_ready [OF Cons.prems, of False] obtain s1 where
        s1: "draco_autorun False s = Inr s1" "ready s1" by blast
      from draco_autorun_version [of False s] s1 have "version s1 = version s" by simp
      with Cons.IH [OF s1(2)] s1 True DracoAutorun show ?thesis by simp
    qed
  next
    case LoadAutorun
    from load_autorun_ready [OF Cons.prems] obtain s1 where
      s1: "load_autorun s = Inr s1" "ready s1" by blast
    from load_autorun_version [of s] s1 have v: "version s1 = js_incr (version s)" by simp
    from Cons.IH [OF s1(2)] obtain s' where
      s': "rerun p as s1 = Inr s'" "ready s'" by blast
    from rerun_version_mono [of s1 p as] s' have "version s1 \<le> version s'" by simp
    with v js_incr_gt [of "version s"] js_incr_ge [of "version s"]
    have "version s < 2 ^ 53 \<longrightarrow> version s < version s'" by auto
    with s1 s' LoadAutorun show ?thesis by (simp add: reads_def)
  qed
qed

lemma complete_version: "version (complete c token s) = version s"
  by (cases c) (simp_all add: complete_def setModel_def onError_def Let_def split: option.splits)

lemma complete_loaders_ready: "loaders_ready (complete c token s) = loaders_ready s"
  by (cases c)
     (simp_all add: complete_def setModel_def onError_def Let_def loaders_ready_def ready_def
        split: option.splits)

lemma unloadGL_version: "version s \<le> version (snd (unloadGL ok s))"
  by (simp add: unloadGL_def Let_def js_incr_ge split: option.splits)

lemma unloadGL_bumps: "version s < 2 ^ 53 \<Longrightarrow> version s < version (snd (unloadGL True s))"
  by (simp add: unloadGL_def Let_def js_incr_gt split: option.splits)

lemma unloadGL_loaders_ready: "loaders_ready s \<Longrightarrow> loaders_ready (snd (unloadGL ok s))"
  by (simp add: unloadGL_def Let_def loaders_ready_def split: option.splits)

lemma loadGL_returns:
  "\<exists>s'. loadGL True s = Inr (True, s') \<and> ready s' \<and> version s' = js_incr (version s)"
proof -
  let ?s1 = "s\<lparr>dracoLoader := Some None, gltfLoader := True\<rparr>"
  have r1: "ready ?s1" by (simp add: ready_def)
  from draco_autorun_ready [OF r1, of True] obtain s2 where
    s2: "draco_autorun True ?s1 = Inr s2" "ready s2" by blast
  from draco_autorun_version [of True ?s1] s2 have v2: "version s2 = version s" by simp
  from load_autorun_ready [OF s2(2)] obtain s3 where
    s3: "load_autorun s2 = Inr s3" "ready s3" by blast
  from load_autorun_version [of s2] s3 v2 have v3: "version s3 = js_incr (version s)" by simp
  from s2 s3 v3 show ?thesis by (simp add: loadGL_def Let_def ready_def)
qed

lemma loadGL_refused: "loadGL False s = Inr (False, s)"
  by (simp add: loadGL_def)

lemma gl_step_loaders_ready:
  assumes "loaders_ready s" shows "loaders_ready (gl_step ev s)"
proof (cases ev)
  case (SetSrc v)
  let ?s0 = "s\<lparr>src := v\<rparr>"
  show ?thesis
  proof (cases "stopFns s = []")
    case True
    with SetSrc show ?thesis by (simp add: gl_step_def loaders_ready_def)
  next
    case False
    with assms have "ready ?s0" by (simp add: loaders_ready_def ready_def)
    from rerun_ready [OF this, of Src "stopFns s"] SetSrc show ?thesis
      by (auto simp: gl_step_def loaders_ready_def)
  qed
next
  case (SetDracoDecoder v)
  let ?s0 = "s\<lparr>dracoDecoder := v\<rparr>"
  show ?thesis
  proof (cases "stopFns s = []")
    case True
    with SetDracoDecoder show ?thesis by (simp add: gl_step_def loaders_ready_def)
  next
    case False
    with assms have "ready ?s0" by (simp add: loaders_ready_def ready_def)
    from rerun_ready [OF this, of DracoDecoder "stopFns s"] SetDracoDecoder show ?thesis
      by (auto simp: gl_step_def loaders_ready_def)
  qed
next
  case (SetCenterGeometry b)
  let ?s0 = "s\<lparr>centerGeometry := b\<rparr>"
  show ?thesis
  proof (cases "stopFns s = []")
    case True
    with SetCenterGeometry show ?thesis by (simp add: gl_step_def loaders_ready_def)
  next
    case False
    with assms have "ready ?s0" by (simp add: loaders_ready_def ready_def)
    from rerun_ready [OF this, of CenterGeometry "stopFns s"] SetCenterGeometry show ?thesis
      by (auto simp: gl_step_def loaders_ready_def)
  qed
next
  case (LoadGL ok)
  show ?thesis
  proof (cases ok)
    case True
    with loadGL_returns [of s] LoadGL show ?thesis by (auto simp: gl_step_def loaders_ready_def)
  next
    case False
    with LoadGL assms show ?thesis by (simp add: gl_step_def loadGL_refused)
  qed
next
  case (UnloadGL ok)
  with assms show ?thesis by (simp add: gl_step_def unloadGL_loaders_ready)
next
  case (Completion c token)
  with assms show ?thesis by (simp add: gl_step_def complete_loaders_ready)
qed

lemma loadGL_version_mono:
  "version s \<le> version (case loadGL ok s of Inl (e, s') \<Rightarrow> s' | Inr (r, s') \<Rightarrow> s')"
proof (cases ok)
  case True
  with loadGL_returns [of s] js_incr_ge [of "version s"] show ?thesis by auto
next
  case False
  then show ?thesis by (simp add: loadGL_refused)
qed

lemma gl_step_version_mono: "version s \<le> version (gl_step ev s)"
  by (cases ev)
     (simp_all add: gl_step_def rerun_version_mono [where s = "_\<lparr>src := _\<rparr>", simplified]
        rerun_version_mono [where s = "_\<lparr>dracoDecoder := _\<rparr>", simplified]
        rerun_version_mono [where s = "_\<lparr>centerGeometry := _\<rparr>", simplified]
        loadGL_version_mono unloadGL_version complete_version)

lemma gl_steps_version_mono: "version s \<le> version (gl_steps evs s)"
proof (induction evs arbitrary: s)
  case Nil
  show ?case by simp
next
  case (Cons ev evs)
  have "version s \<le> version (gl_step ev s)" by (rule gl_step_version_mono)
  also have "\<dots> \<le> version (gl_steps evs (gl_step ev s))" by (rule Cons.IH)
  finally show ?case by simp
qed

lemma gl_step_restarts:
  assumes "loaders_ready s" "version s < 2 ^ 53" "restarts ev s"
  shows "version s < version (gl_step ev s)"
proof (cases ev)
  case (SetSrc v)
  with assms(3) have l: "LoadAutorun \<in> set (stopFns s)" by (simp add: restarts_def)
  with assms(1) have "ready (s\<lparr>src := v\<rparr>)" by (auto simp: loaders_ready_def ready_def)
  from rerun_ready [OF this, of Src "stopFns s"] l assms(2) SetSrc show ?thesis
    by (auto simp: gl_step_def)
next
  case (SetDracoDecoder v)
  with assms(3) have l: "LoadAutorun \<in> set (stopFns s)" by (simp add: restarts_def)
  with assms(1) have "ready (s\<lparr>dracoDecoder := v\<rparr>)" by (auto simp: loaders_ready_def ready_def)
  from rerun_ready [OF this, of DracoDecoder "stopFns s"] l assms(2) SetDracoDecoder show ?thesis
    by (auto simp: gl_step_def)
next
  case (SetCenterGeometry b)
  with assms(3) have l: "LoadAutorun \<in> set (stopFns s)" by (simp add: restarts_def)
  with assms(1) have "ready (s\<lparr>centerGeometry := b\<rparr>)" by (auto simp: loaders_ready_def ready_def)
  from rerun_ready [OF this, of CenterGeometry "stopFns s"] l assms(2) SetCenterGeometry show ?thesis
    by (auto simp: gl_step_def)
next
  case (LoadGL ok)
  with assms(3) have "ok" by (simp add: restarts_def)
  with loadGL_returns [of s] js_incr_gt [OF assms(2)] LoadGL show ?thesis
    by (auto simp: gl_step_def)
next
  case (UnloadGL ok)
  with assms(3) have "ok" by (simp add: restarts_def)
  with unloadGL_bumps [OF assms(2)] UnloadGL show ?thesis by (simp add: gl_step_def)
next
  case (Completion c token)
  with assms(3) show ?thesis by (simp add: restarts_def)
qed

lemma complete_stale: "token \<noteq> version s \<Longrightarrow> complete c token s = s"
  by (cases c) (simp_all add: complete_def)

lemma load_autorun_tokens:
  "tokens_issued s \<Longrightarrow> tokens_issued (state_after (load_autorun s))"
  using js_incr_ge [of "version s"]
  by (fastforce simp: tokens_issued_def load_autorun_def loadObj_def cleanupModel_def Let_def
      split: option.splits)

lemma draco_autorun_tokens:
  "tokens_issued s \<Longrightarrow> tokens_issued (state_after (draco_autorun b s))"
  by (auto simp: tokens_issued_def draco_autorun_def Let_def split: option.splits)

lemma rerun_tokens: "tokens_issued s \<Longrightarrow> tokens_issued (state_after (rerun p as s))"
proof (induction as arbitrary: s)
  case Nil
  then show ?case by simp
next
  case (Cons a as)
  show ?case
  proof (cases "reads a p")
    case False
    with Cons show ?thesis by simp
  next
    case True
    let ?r = "case a of DracoAutorun \<Rightarrow> draco_autorun False s | LoadAutorun \<Rightarrow> load_autorun s"
    have t: "tokens_issued (state_after ?r)"
      using Cons.prems by (cases a) (simp_all add: draco_autorun_tokens load_autorun_tokens)
    show ?thesis
    proof (cases ?r)
      case (Inl e)
      with True t show ?thesis by (cases e) simp
    next
      case (Inr s1)
      with t Cons.IH [of s1] True show ?thesis by simp
    qed
  qed
qed

lemma complete_tokens: "tokens_issued (complete c token s) = tokens_issued s"
  by (cases c)
     (simp_all add: complete_def setModel_def onError_def Let_def tokens_issued_def
        split: option.splits)

lemma unloadGL_tokens: "tokens_issued s \<Longrightarrow> tokens_issued (snd (unloadGL ok s))"
  using js_incr_ge [of "version s"]
  by (fastforce simp: unloadGL_def Let_def tokens_issued_def cleanupModel_def split: option.splits)

lemma loadGL_tokens:
  assumes "tokens_issued s"
  shows "tokens_issued (case loadGL ok s of Inl (e, s') \<Rightarrow> s' | Inr (r, s') \<Rightarrow> s')"
proof (cases ok)
  case False
  with assms show ?thesis by (simp add: loadGL_refused)
next
  case True
  let ?s1 = "s\<lparr>dracoLoader := Some None, gltfLoader := True\<rparr>"
  have r1: "ready ?s1" by (simp add: ready_def)
  from assms have t1: "tokens_issued ?s1" by (simp add: tokens_issued_def)
  from draco_autorun_ready [OF r1, of True] obtain s2 where
    s2: "draco_autorun True ?s1 = Inr s2" "ready s2" by blast
  from draco_autorun_tokens [OF t1, of True] s2 have t2: "tokens_issued s2" by simp
  from load_autorun_ready [OF s2(2)] obtain s3 where
    s3: "load_autorun s2 = Inr s3" by blast
  from load_autorun_tokens [OF t2] s3 have "tokens_issued s3" by simp
  with True s2 s3 show ?thesis by (simp add: loadGL_def Let_def tokens_issued_def)
qed

lemma gl_step_tokens: "tokens_issued s \<Longrightarrow> tokens_issued (gl_step ev s)"
proof (cases ev)
  case (SetSrc v)
  assume "tokens_issued s"
  then have "tokens_issued (s\<lparr>src := v\<rparr>)" by (simp add: tokens_issued_def)
  with SetSrc show ?thesis by (simp add: gl_step_def rerun_tokens)
next
  case (SetDracoDecoder v)
  assume "tokens_issued s"
  then have "tokens_issued (s\<lparr>dracoDecoder := v\<rparr>)" by (simp add: tokens_issued_def)
  with SetDracoDecoder show ?thesis by (simp add: gl_step_def rerun_tokens)
next
  case (SetCenterGeometry b)
  assume "tokens_issued s"
  then have "tokens_issued (s\<lparr>centerGeometry := b\<rparr>)" by (simp add: tokens_issued_def)
  with SetCenterGeometry show ?thesis by (simp add: gl_step_def rerun_tokens)
next
  case (LoadGL ok)
  assume "tokens_issued s"
  with LoadGL show ?thesis by (simp add: gl_step_def loadGL_tokens)
next
  case (UnloadGL ok)
  assume "tokens_issued s"
  with UnloadGL show ?thesis by (simp add: gl_step_def unloadGL_tokens)
next
  case (Completion c token)
  assume "tokens_issued s"
  with Completion show ?thesis by (simp add: gl_step_def complete_tokens)
qed

lemma gl_steps_well_formed: "well_formed s \<Longrightarrow> well_formed (gl_steps evs s)"
  by (induction evs arbitrary: s)
     (simp_all add: well_formed_def gl_step_tokens gl_step_loaders_ready)

lemma well_formed_init: "well_formed gltf_init"
  by (simp add: well_formed_def loaders_ready_def tokens_issued_def gltf_init_def)

lemmas gl_eval = gl_step_def loadGL_def unloadGL_def draco_autorun_def load_autorun_def loadObj_def
  cleanupModel_def js_incr_def truthy_def gltf_init_def reads_def complete_def setModel_def Let_def

subsection \<open>C5: completions of a cancelled load are discarded\<close>

text \<open>
  C5. Take a load in flight (its callbacks captured \<open>token\<close>) and an event that restarts
  or cancels it: a write to \<open>src\<close> or \<open>dracoDecoder\<close> while the load autorun is
  registered, or an unload (or load) of the backend. After that event and any further events,
  the captured token is below the current version, and each of the three callbacks of that load
  (success, progress, error) returns the state as it found it: no model is set, nothing is
  emitted, nothing else changes. In any state a callback whose token differs from the current
  version does nothing, and one whose token equals it takes effect: the success callback sets
  the model and emits the load event, the progress and the error callbacks emit theirs.
  The counter is a JavaScript number, so the statement is for versions below \<open>2^53\<close>.
\<close>

theorem stale_completion_discarded:
  assumes "well_formed s" "(url, token) \<in> set (loads s)" "version s < 2 ^ 53" "restarts ev s"
  shows "token < version (gl_steps evs (gl_step ev s)) \<and>
         complete c token (gl_steps evs (gl_step ev s)) = gl_steps evs (gl_step ev s) \<and>
         (\<forall>t k. k \<noteq> version t \<longrightarrow> complete c k t = t) \<and>
         (\<forall>t m. complete (OnLoad m) (version t) t = setModel m t \<and>
                model (setModel m t) = Some m \<and>
                emitted (setModel m t) = emitted t @ [MODEL_LOAD m]) \<and>
         (\<forall>t p. emitted (complete (OnProgress p) (version t) t) = emitted t @ [PROGRESS p]) \<and>
         (\<forall>t e. complete (OnFailure e) (version t) t = onError e t \<and>
                emitted (onError e t) = emitted t @ [MODEL_ERROR (ev_error e)])"
proof -
  let ?s' = "gl_steps evs (gl_step ev s)"
  from assms(1,2) have le: "token \<le> version s" by (auto simp: well_formed_def tokens_issued_def)
  from assms have "version s < version (gl_step ev s)"
    by (simp add: gl_step_restarts well_formed_def)
  also have "\<dots> \<le> version ?s'" by (rule gl_steps_version_mono)
  finally have lt: "token < version ?s'" using le by simp
  then have "complete c token ?s' = ?s'" by (simp add: complete_stale)
  with lt show ?thesis
    by (simp add: complete_stale) (simp add: complete_def setModel_def onError_def Let_def split: option.splits)
qed

theorem stale_completion_discarded_witness:
  "well_formed (gl_steps [LoadGL True, SetSrc (Some ''a.gltf'')] gltf_init) \<and>
   loads (gl_steps [LoadGL True, SetSrc (Some ''a.gltf'')] gltf_init) = [(''a.gltf'', 2)] \<and>
   version (gl_steps [LoadGL True, SetSrc (Some ''a.gltf'')] gltf_init) = 2 \<and>
   restarts (SetSrc (Some ''b.gltf'')) (gl_steps [LoadGL True, SetSrc (Some ''a.gltf'')] gltf_init) \<and>
   version (gl_steps [LoadGL True, SetSrc (Some ''a.gltf''), SetSrc (Some ''b.gltf'')] gltf_init) = 3 \<and>
   complete (OnLoad 7) 2
     (gl_steps [LoadGL True, SetSrc (Some ''a.gltf''), SetSrc (Some ''b.gltf'')] gltf_init) =
     gl_steps [LoadGL True, SetSrc (Some ''a.gltf''), SetSrc (Some ''b.gltf'')] gltf_init \<and>
   model (complete (OnLoad 8) 3
     (gl_steps [LoadGL True, SetSrc (Some ''a.gltf''), SetSrc (Some ''b.gltf'')] gltf_init)) = Some 8"
proof -
  let ?s = "gl_steps [LoadGL True, SetSrc (Some ''a.gltf'')] gltf_init"
  let ?ev = "SetSrc (Some ''b.gltf'')"
  have wf: "well_formed ?s" using well_formed_init by (rule gl_steps_well_formed)
  have l: "loads ?s = [(''a.gltf'', 2)]" by (simp add: gl_eval)
  have v: "version ?s = 2" by (simp add: gl_eval)
  have r: "restarts ?ev ?s" by (simp add: restarts_def gl_eval)
  have s3: "gl_steps [] (gl_step ?ev ?s) =
      gl_steps [LoadGL True, SetSrc (Some ''a.gltf''), SetSrc (Some ''b.gltf'')] gltf_init"
    by simp
  have v3: "version (gl_step ?ev ?s) = 3" by (simp add: gl_eval)
  have mem: "(''a.gltf'', 2) \<in> set (loads ?s)" unfolding l by simp
  have lt: "version ?s < 2 ^ 53" unfolding v by simp
  from stale_completion_discarded [OF wf mem lt r, of "[]" "OnLoad 7"]
  have "complete (OnLoad 7) 2 (gl_step ?ev ?s) = gl_step ?ev ?s"
    and "model (complete (OnLoad 8) (version (gl_step ?ev ?s)) (gl_step ?ev ?s)) = Some 8"
    by simp_all
  with wf l v r v3 show ?thesis by simp
qed

section \<open>Properties of ImperativeBase\<close>

subsection \<open>What the getters and the setters leave alone\<close>

lemma three_other_fields:
  "appliedPosition (snd (three n s)) = appliedPosition s \<and>
   threeJsPostAdjustment (snd (three n s)) = threeJsPostAdjustment s \<and>
   isHTMLElement (snd (three n s)) = isHTMLElement s \<and>
   isScene (snd (three n s)) = isScene s \<and>
   threeCSS_ref (snd (three n s)) = threeCSS_ref s"
  by (simp add: three_def dd_makeThreeObject3d_def makeThreeObject3d_def Let_def split: option.splits)

lemma threeCSS_applied:
  "threeCSS n s = Inr (r, s') \<Longrightarrow> appliedPosition s' = appliedPosition s"
  by (auto simp: threeCSS_def dd_makeThreeCSSObject_def makeThreeCSSObject_def Let_def
      split: option.splits if_splits)

lemma threeCSS_throws: "threeCSS n s = Inl (e, s') \<Longrightarrow> s' = s"
  by (auto simp: threeCSS_def dd_makeThreeCSSObject_def makeThreeCSSObject_def Let_def
      split: option.splits if_splits)

lemma threeCSS_returns:
  "isHTMLElement s n \<or> isScene s n \<Longrightarrow> \<exists>r s'. threeCSS n s = Inr (r, s') \<and> appliedPosition s' = appliedPosition s"
  by (auto simp: threeCSS_def dd_makeThreeCSSObject_def makeThreeCSSObject_def Let_def
      split: option.splits)

lemma set_position_applied [simp]: "appliedPosition (set_position r v s) = appliedPosition s"
  by (simp add: set_position_def)

lemma set_pivot_applied [simp]: "appliedPosition (set_pivot r v s) = appliedPosition s"
  by (simp add: set_pivot_def)

lemma updateMatrix_applied [simp]: "appliedPosition (updateMatrix r s) = appliedPosition s"
  by (simp add: updateMatrix_def)

lemma set_position_flags [simp]:
  "isHTMLElement (set_position r v s) = isHTMLElement s" "isScene (set_position r v s) = isScene s"
  by (simp_all add: set_position_def)

lemma calculateMatrix_applied:
  "appliedPosition (state_after (calculateMatrix n s)) =
     XYZ (xval (position s n) + xval (parentSize s n) * xval (alignPoint s n)
            - xval (calculatedSize s n) * xval (mountPoint s n))
         (yval (position s n) + yval (parentSize s n) * yval (alignPoint s n)
            - yval (calculatedSize s n) * yval (mountPoint s n))
         (zval (position s n) + zval (parentSize s n) * zval (alignPoint s n)
            - zval (calculatedSize s n) * zval (mountPoint s n))"
  by (auto simp: calculateMatrix_def Let_def state_after_def split_beta three_other_fields
      split: sum.splits dest!: threeCSS_applied threeCSS_throws)

lemma threeCSS_throws_only:
  "threeCSS n s = Inl e \<Longrightarrow> \<not> isHTMLElement s n \<and> \<not> isScene s n"
  by (auto simp: threeCSS_def dd_makeThreeCSSObject_def makeThreeCSSObject_def Let_def
      split: option.splits if_splits)

lemma calculateMatrix_returns:
  "isHTMLElement s n \<or> isScene s n \<Longrightarrow> \<not> isl (calculateMatrix n s)"
  by (auto simp: calculateMatrix_def Let_def split_beta three_other_fields
      split: sum.splits dest!: threeCSS_throws_only)

subsection \<open>C4: the applied position\<close>

text \<open>
  C4. For every node, \<open>_calculateMatrix\<close> leaves in \<open>appliedPosition\<close>, on each axis,
  the stored position plus the anchor offset (align times the parent's resolved size) minus
  the mount offset (mountPoint times the node's own resolved size). The sizes are always
  there to read: \<open>calculatedSize\<close> and \<open>_getParentSize()\<close> return objects, and on a
  DOM element (or a scene) the method does not throw.
\<close>

theorem applied_position_formula:
  "appliedPosition (state_after (calculateMatrix n s)) =
     XYZ (xval (position s n) + xval (alignPoint s n) * xval (parentSize s n)
            - xval (mountPoint s n) * xval (calculatedSize s n))
         (yval (position s n) + yval (alignPoint s n) * yval (parentSize s n)
            - yval (mountPoint s n) * yval (calculatedSize s n))
         (zval (position s n) + zval (alignPoint s n) * zval (parentSize s n)
            - zval (mountPoint s n) * zval (calculatedSize s n)) \<and>
   (isHTMLElement s n \<or> isScene s n \<longrightarrow> \<not> isl (calculateMatrix n s))"
  using calculateMatrix_returns [of s n]
  by (simp add: calculateMatrix_applied mult.commute)

theorem applied_position_formula_witness:
  "isHTMLElement example_node 1 \<and>
   appliedPosition (state_after (calculateMatrix 1 example_node)) = XYZ 310 295 0 \<and>
   \<not> isl (calculateMatrix 1 example_node)"
  using applied_position_formula [of 1 example_node]
  by (simp add: example_node_def ib_init_def)

subsection \<open>The position handed to the 3D object\<close>

text \<open>
  For a node that has no backend object yet, \<open>_calculateMatrix\<close> creates both (the 3D
  object first) and places the 3D object at the applied position, moved by half the node's
  own size and back by half the parent's size, the Y value negated.
\<close>

theorem three_position_from_applied:
  assumes "three_ref s n = None" "threeCSS_ref s n = None" "isHTMLElement s n \<or> isScene s n"
  shows "\<exists>s'. calculateMatrix n s = Inr s' \<and>
           three_ref s' n = Some (next_obj s) \<and> threeCSS_ref s' n = Some (Suc (next_obj s)) \<and>
           o_position (objects s' (next_obj s)) =
             XYZ (xval (appliedPosition s') + (xval (calculatedSize s n) / 2 - xval (parentSize s n) / 2))
                 (- (yval (appliedPosition s') + (yval (calculatedSize s n) / 2 - yval (parentSize s n) / 2)))
                 (zval (appliedPosition s') + (zval (calculatedSize s n) / 2 - zval (parentSize s n) / 2))"
  using assms
  by (auto simp: calculateMatrix_def ib_init_def three_def dd_makeThreeObject3d_def
      makeThreeObject3d_def threeCSS_def dd_makeThreeCSSObject_def makeThreeCSSObject_def
      new_object_def object_name_def Let_def set_position_def set_pivot_def updateMatrix_def)

theorem three_position_from_applied_witness:
  "three_ref example_node 1 = None \<and> threeCSS_ref example_node 1 = None \<and>
   isHTMLElement example_node 1 \<and>
   (\<exists>s'. calculateMatrix 1 example_node = Inr s' \<and> three_ref s' 1 = Some 0 \<and>
      appliedPosition s' = XYZ 310 295 0 \<and> o_position (objects s' 0) = XYZ (- 40) (- 20) 0)"
proof -
  have pre: "three_ref example_node 1 = None" "threeCSS_ref example_node 1 = None"
    "isHTMLElement example_node 1" "next_obj example_node = 0"
    "calculatedSize example_node 1 = XYZ 100 50 0" "parentSize example_node 1 = XYZ 800 600 0"
    by (simp_all add: example_node_def ib_init_def)
  from three_position_from_applied [of example_node 1] pre obtain s' where
    s': "calculateMatrix 1 example_node = Inr s'" "three_ref s' 1 = Some 0"
    "o_position (objects s' 0) =
       XYZ (xval (appliedPosition s') + (100 / 2 - 800 / 2))
           (- (yval (appliedPosition s') + (50 / 2 - 600 / 2)))
           (zval (appliedPosition s') + (0 / 2 - 0 / 2))"
    by auto
  have "appliedPosition (state_after (calculateMatrix 1 example_node)) = XYZ 310 295 0"
    by (simp add: calculateMatrix_applied example_node_def ib_init_def)
  with s'(1) have ap: "appliedPosition s' = XYZ 310 295 0" by simp
  with s' have "calculateMatrix 1 example_node = Inr s' \<and> three_ref s' 1 = Some 0 \<and>
      appliedPosition s' = XYZ 310 295 0 \<and> o_position (objects s' 0) = XYZ (- 40) (- 20) 0"
    by simp
  then have "\<exists>s'. calculateMatrix 1 example_node = Inr s' \<and> three_ref s' 1 = Some 0 \<and>
      appliedPosition s' = XYZ 310 295 0 \<and> o_position (objects s' 0) = XYZ (- 40) (- 20) 0" ..
  with pre show ?thesis by simp
qed

subsection \<open>The getters create, the loaders are gated\<close>

lemma three_creates:
  "three_ref s n = None \<Longrightarrow>
   fst (three n s) = next_obj s \<and> three_ref (snd (three n s)) = (three_ref s)(n \<mapsto> next_obj s) \<and>
   next_obj (snd (three n s)) = Suc (next_obj s)"
  by (simp add: three_def dd_makeThreeObject3d_def makeThreeObject3d_def Let_def)

lemma three_cached: "three_ref s n = Some r \<Longrightarrow> three n s = (r, s)"
  by (simp add: three_def)

lemma threeCSS_creates:
  "threeCSS_ref s n = None \<Longrightarrow> isHTMLElement s n \<or> isScene s n \<Longrightarrow>
   \<exists>s'. threeCSS n s = Inr (next_obj s, s') \<and> threeCSS_ref s' = (threeCSS_ref s)(n \<mapsto> next_obj s) \<and>
     next_obj s' = Suc (next_obj s)"
  by (auto simp: threeCSS_def dd_makeThreeCSSObject_def makeThreeCSSObject_def Let_def)

lemma threeCSS_cached: "threeCSS_ref s n = Some r \<Longrightarrow> threeCSS n s = Inr (r, s)"
  by (simp add: threeCSS_def)

lemma scene_only_caches:
  "scene k n s = Some (r, s') \<Longrightarrow> \<exists>f. s' = s\<lparr>scene_ref := f\<rparr>"
proof (induction k arbitrary: n s r s')
  case 0
  then show ?case by simp
next
  case (Suc k)
  show ?case
  proof (cases "scene_ref s n \<noteq> None \<or> parent_ref s n = None")
    case True
    with Suc.prems have "s' = s\<lparr>scene_ref := scene_ref s\<rparr>" by (auto simp: Let_def)
    then show ?thesis by blast
  next
    case False
    then obtain p where p: "parent_ref s n = Some p" by auto
    show ?thesis
    proof (cases "scene_ref s p \<noteq> None \<or> isScene s p")
      case True
      with Suc.prems False p show ?thesis
        by (auto simp: Let_def split: if_splits intro: exI)
    next
      case False2: False
      with Suc.prems False p obtain r0 s0 where
        s0: "scene k p s = Some (r0, s0)" and s': "s' = s0\<lparr>scene_ref := (scene_ref s0)(n := r0)\<rparr>"
        by (auto simp: Let_def split: option.splits)
      from Suc.IH [OF s0] obtain f where "s0 = s\<lparr>scene_ref := f\<rparr>" ..
      with s' have "s' = s\<lparr>scene_ref := f(n := r0)\<rparr>" by simp
      then show ?thesis by blast
    qed
  qed
qed

lemma loadGL_node_gate:
  assumes "scene k n s = Some (sc, s1)"
    and "\<not> (case sc of None \<Rightarrow> False | Some c \<Rightarrow> webgl s1 c)"
  shows "loadGL_node k n s = Some (False, s1) \<and> three_ref s1 = three_ref s \<and>
         objects s1 = objects s \<and> next_obj s1 = next_obj s \<and> glLoaded s1 = glLoaded s"
proof -
  from assms have "loadGL_node k n s = Some (False, s1)" by (simp add: loadGL_node_def)
  moreover from scene_only_caches [OF assms(1)] obtain f where "s1 = s\<lparr>scene_ref := f\<rparr>" ..
  ultimately show ?thesis by simp
qed

lemma loadCSS_node_gate:
  assumes "scene k n s = Some (sc, s1)"
    and "\<not> (case sc of None \<Rightarrow> False | Some c \<Rightarrow> enableCss s1 c)"
  shows "loadCSS_node k n s = Some (Inr (False, s1)) \<and> threeCSS_ref s1 = threeCSS_ref s \<and>
         objects s1 = objects s \<and> next_obj s1 = next_obj s \<and> cssLoaded s1 = cssLoaded s"
proof -
  from assms have "loadCSS_node k n s = Some (Inr (False, s1))" by (simp add: loadCSS_node_def)
  moreover from scene_only_caches [OF assms(1)] obtain f where "s1 = s\<lparr>scene_ref := f\<rparr>" ..
  ultimately show ?thesis by simp
qed

lemma three_keeps: "three_ref s n = Some r \<Longrightarrow> three_ref (snd (three m s)) n = Some r"
  by (auto simp: three_def dd_makeThreeObject3d_def makeThreeObject3d_def Let_def split: option.splits)

lemma three_has: "\<exists>r. three_ref (snd (three n s)) n = Some r"
  by (auto simp: three_def dd_makeThreeObject3d_def makeThreeObject3d_def Let_def split: option.splits)

lemma object_add_refs [simp]: "three_ref (object_add p c s) = three_ref s"
  by (simp add: object_add_def Let_def split: option.splits)

lemma three_add_keeps: "three_ref s n = Some r \<Longrightarrow> three_ref (three_add d m s) n = Some r"
  by (simp add: three_add_def split_beta three_keeps)

lemma needsUpdate_refs [simp]:
  "three_ref (needsUpdate n s) = three_ref s" "glLoaded (needsUpdate n s) = glLoaded s"
  by (simp_all add: needsUpdate_def Let_def)

lemma three_glLoaded [simp]: "glLoaded (snd (three n s)) = glLoaded s"
  by (simp add: three_def dd_makeThreeObject3d_def makeThreeObject3d_def Let_def split: option.splits)

lemma object_add_glLoaded [simp]: "glLoaded (object_add p c s) = glLoaded s"
  by (simp add: object_add_def Let_def split: option.splits)

lemma three_add_glLoaded [simp]: "glLoaded (three_add d m s) = glLoaded s"
  by (simp add: three_add_def split_beta)

lemma connectThree_keeps:
  assumes "connectThree k m s = Some s'"
  shows "(three_ref s n = Some r \<longrightarrow> three_ref s' n = Some r) \<and> glLoaded s' = glLoaded s"
proof -
  from assms(1) obtain d s1 where d: "distributed_below_node k m s = Some (d, s1)"
    by (auto simp: connectThree_def split: option.splits)
  then have "three_ref s1 = three_ref s \<and> glLoaded s1 = glLoaded s"
    by (auto simp: distributed_below_node_def split: if_splits option.splits dest!: scene_only_caches)
  with assms d show ?thesis
    by (auto simp: connectThree_def three_add_keeps split: option.splits if_splits)
qed

lemma loadGL_node_creates:
  assumes "loadGL_node k n s = Some (True, s')"
  shows "(\<exists>r. three_ref s' n = Some r) \<and> glLoaded s' n"
proof -
  from assms obtain sc s1 where sc: "scene k n s = Some (sc, s1)"
    by (auto simp: loadGL_node_def split: option.splits)
  let ?s2 = "s1\<lparr>glLoaded := (glLoaded s1)(n := True)\<rparr>"
  let ?r = "fst (three n ?s2)"
  let ?s3 = "snd (three n ?s2)"
  let ?s4 = "?s3\<lparr>objects := (objects ?s3)(?r := (objects ?s3 ?r)\<lparr>o_matrixAutoUpdate := False\<rparr>)\<rparr>"
  from assms sc obtain s5 where s5: "connectThree k n ?s4 = Some s5" and s': "s' = needsUpdate n s5"
    by (auto simp: loadGL_node_def Let_def split_beta split: option.splits if_splits)
  from three_has [of n ?s2] obtain r where "three_ref ?s4 n = Some r" by auto
  moreover have "glLoaded ?s4 n" by simp
  ultimately show ?thesis using connectThree_keeps [OF s5, of n r] s' by simp
qed

lemmas ib_eval = ib_init_def three_def dd_makeThreeObject3d_def makeThreeObject3d_def
  threeCSS_def dd_makeThreeCSSObject_def makeThreeCSSObject_def new_object_def object_name_def
  Let_def

lemma scene_example:
  "scene 1 1 (ib_init gl css) =
     Some (Some 0, (ib_init gl css)\<lparr>scene_ref := (scene_ref (ib_init gl css))(1 \<mapsto> 0)\<rparr>)"
  by (simp add: ib_init_def Let_def)

lemma loadGL_node_example:
  "map_option fst (loadGL_node 1 1 (ib_init True True)) = Some True"
  by (simp add: loadGL_node_def scene_example)
     (auto simp: ib_eval connectThree_def distributed_below_node_def three_add_def object_add_def
        needsUpdate_def split_beta)

subsection \<open>The scene getter returns where the parent chain ends\<close>

lemma scene_Suc: "scene k n s = Some x \<Longrightarrow> scene (Suc k) n s = Some x"
proof (induction k arbitrary: n s x)
  case 0
  then show ?case by simp
next
  case (Suc k)
  show ?case
  proof (cases "scene_ref s n \<noteq> None \<or> parent_ref s n = None")
    case True
    with Suc.prems show ?thesis by (auto simp: Let_def)
  next
    case False
    then obtain p where p: "parent_ref s n = Some p" by auto
    show ?thesis
    proof (cases "scene_ref s p \<noteq> None \<or> isScene s p")
      case True
      with Suc.prems False p show ?thesis
        by (subst scene.simps) (auto simp: Let_def split: if_splits)
    next
      case False2: False
      with Suc.prems False p obtain y where y: "scene k p s = Some y"
        by (auto simp: Let_def split: option.splits)
      from Suc.IH [OF y] have y': "scene (Suc k) p s = Some y" .
      from Suc.prems False False2 p y have "x = (let s1 = (snd y)\<lparr>scene_ref := (scene_ref (snd y))(n := fst y)\<rparr>
                        in (scene_ref s1 n, s1))"
        by (auto simp: Let_def split_beta)
      with False False2 p y' show ?thesis
        by (subst scene.simps) (auto simp: Let_def split_beta)
    qed
  qed
qed

lemma scene_mono: "k \<le> j \<Longrightarrow> scene k n s = Some x \<Longrightarrow> scene j n s = Some x"
  by (induction j) (auto simp: le_Suc_eq simp del: scene.simps intro: scene_Suc)

lemma chain_ends_scene: "chain_ends k s n \<Longrightarrow> \<exists>x. scene k n s = Some x"
proof (induction k arbitrary: n)
  case 0
  then show ?case by simp
next
  case (Suc k)
  show ?case
  proof (cases "parent_ref s n")
    case None
    then show ?thesis by (simp add: Let_def)
  next
    case (Some p)
    with Suc.prems have "chain_ends k s p" by simp
    from Suc.IH [OF this] obtain x where "scene k p s = Some x" ..
    with Some show ?thesis by (auto simp: Let_def split_beta)
  qed
qed

lemma scene_result_cached: "scene k n s = Some (r, s1) \<Longrightarrow> scene_ref s1 n = r"
  by (cases k) (auto simp: Let_def split: if_splits option.splits)

lemma scene_cached: "scene_ref s n = Some c \<Longrightarrow> scene (Suc k) n s = Some (Some c, s)"
  by (simp add: Let_def)

lemma scene_never_returns:
  assumes "\<forall>m \<in> C. \<exists>p \<in> C. parent_ref s m = Some p \<and> scene_ref s m = None \<and> \<not> isScene s p"
  shows "n \<in> C \<Longrightarrow> scene k n s = None"
proof (induction k arbitrary: n)
  case 0
  show ?case by simp
next
  case (Suc k)
  from assms Suc.prems obtain p where p: "p \<in> C" "parent_ref s n = Some p" "scene_ref s n = None"
    "\<not> isScene s p" by blast
  from assms p(1) have "scene_ref s p = None" by blast
  with p Suc.IH [OF p(1)] show ?case by (simp add: Let_def)
qed

lemma three_scene_ref [simp]: "scene_ref (snd (three n s)) = scene_ref s"
  by (simp add: three_def dd_makeThreeObject3d_def makeThreeObject3d_def Let_def split: option.splits)

lemma loadGL_node_loads:
  assumes "scene j n s = Some (Some c, s1)" "webgl s1 c" "\<not> glLoaded s1 n"
  shows "\<exists>s2. loadGL_node j n s = Some (True, s2)"
proof -
  from assms(1) obtain i where j: "j = Suc i" by (cases j) simp_all
  let ?s2 = "s1\<lparr>glLoaded := (glLoaded s1)(n := True)\<rparr>"
  let ?r = "fst (three n ?s2)"
  let ?s3 = "snd (three n ?s2)"
  let ?s4 = "?s3\<lparr>objects := (objects ?s3)(?r := (objects ?s3 ?r)\<lparr>o_matrixAutoUpdate := False\<rparr>)\<rparr>"
  from scene_result_cached [OF assms(1)] have "scene_ref ?s4 n = Some c" by simp
  then have "scene j n ?s4 = Some (Some c, ?s4)" unfolding j by (rule scene_cached)
  then have "\<exists>d. distributed_below_node j n ?s4 = Some (d, ?s4)"
    by (auto simp: distributed_below_node_def)
  then obtain s5 where "connectThree j n ?s4 = Some s5"
    by (auto simp: connectThree_def)
  with assms show ?thesis
    by (simp add: loadGL_node_def Let_def split_beta)
qed

lemma scene_flags:
  "scene k n s = Some (r, s1) \<Longrightarrow>
   webgl s1 = webgl s \<and> enableCss s1 = enableCss s \<and> glLoaded s1 = glLoaded s \<and>
   cssLoaded s1 = cssLoaded s"
  by (auto dest!: scene_only_caches)

lemma chain_ends_loads:
  assumes "chain_ends k s n"
  shows "\<exists>sc s1. (\<forall>j\<ge>k. scene j n s = Some (sc, s1)) \<and>
         three_ref s1 = three_ref s \<and> threeCSS_ref s1 = threeCSS_ref s \<and>
         objects s1 = objects s \<and> next_obj s1 = next_obj s \<and>
         glLoaded s1 = glLoaded s \<and> cssLoaded s1 = cssLoaded s \<and>
         (\<not> (case sc of None \<Rightarrow> False | Some c \<Rightarrow> webgl s c) \<longrightarrow>
            (\<forall>j\<ge>k. loadGL_node j n s = Some (False, s1))) \<and>
         (\<not> (case sc of None \<Rightarrow> False | Some c \<Rightarrow> enableCss s c) \<longrightarrow>
            (\<forall>j\<ge>k. loadCSS_node j n s = Some (Inr (False, s1)))) \<and>
         ((case sc of None \<Rightarrow> False | Some c \<Rightarrow> webgl s c) \<and> \<not> glLoaded s n \<longrightarrow>
            (\<forall>j\<ge>k. \<exists>s2. loadGL_node j n s = Some (True, s2) \<and>
               (\<exists>r. three_ref s2 n = Some r) \<and> glLoaded s2 n))"
proof -
  from chain_ends_scene [OF assms] obtain sc s1 where x: "scene k n s = Some (sc, s1)" by auto
  then have all: "\<forall>j\<ge>k. scene j n s = Some (sc, s1)" by (blast intro: scene_mono)
  from scene_only_caches [OF x] obtain f where f: "s1 = s\<lparr>scene_ref := f\<rparr>" ..
  then have same: "three_ref s1 = three_ref s" "threeCSS_ref s1 = threeCSS_ref s"
    "objects s1 = objects s" "next_obj s1 = next_obj s"
    "glLoaded s1 = glLoaded s" "cssLoaded s1 = cssLoaded s"
    "webgl s1 = webgl s" "enableCss s1 = enableCss s"
    by simp_all
  have gl: "\<forall>j\<ge>k. loadGL_node j n s = Some (False, s1)"
    if "\<not> (case sc of None \<Rightarrow> False | Some c \<Rightarrow> webgl s c)"
  proof (intro allI impI)
    fix j assume "k \<le> j"
    with all have "scene j n s = Some (sc, s1)" by blast
    moreover from that same(7) have "\<not> (case sc of None \<Rightarrow> False | Some c \<Rightarrow> webgl s1 c)"
      by (cases sc) simp_all
    ultimately show "loadGL_node j n s = Some (False, s1)" by (simp add: loadGL_node_def)
  qed
  have css: "\<forall>j\<ge>k. loadCSS_node j n s = Some (Inr (False, s1))"
    if "\<not> (case sc of None \<Rightarrow> False | Some c \<Rightarrow> enableCss s c)"
  proof (intro allI impI)
    fix j assume "k \<le> j"
    with all have "scene j n s = Some (sc, s1)" by blast
    moreover from that same(8) have "\<not> (case sc of None \<Rightarrow> False | Some c \<Rightarrow> enableCss s1 c)"
      by (cases sc) simp_all
    ultimately show "loadCSS_node j n s = Some (Inr (False, s1))" by (simp add: loadCSS_node_def)
  qed
  have on: "\<forall>j\<ge>k. \<exists>s2. loadGL_node j n s = Some (True, s2) \<and>
               (\<exists>r. three_ref s2 n = Some r) \<and> glLoaded s2 n"
    if "(case sc of None \<Rightarrow> False | Some c \<Rightarrow> webgl s c) \<and> \<not> glLoaded s n"
  proof (intro allI impI)
    fix j assume "k \<le> j"
    from that obtain c where c: "sc = Some c" "webgl s c" "\<not> glLoaded s n"
      by (cases sc) simp_all
    from all \<open>k \<le> j\<close> c(1) have "scene j n s = Some (Some c, s1)" by blast
    from loadGL_node_loads [OF this] c(2,3) same(5,7)
    obtain s2 where s2: "loadGL_node j n s = Some (True, s2)" by auto
    from loadGL_node_creates [OF s2] s2
    show "\<exists>s2. loadGL_node j n s = Some (True, s2) \<and>
               (\<exists>r. three_ref s2 n = Some r) \<and> glLoaded s2 n" by blast
  qed
  from all same(1-6) gl css on show ?thesis by blast
qed

lemma cycle_never_loads:
  assumes "n \<in> C"
    and "\<forall>m \<in> C. \<exists>p \<in> C. parent_ref s m = Some p \<and> scene_ref s m = None \<and> \<not> isScene s p"
  shows "scene j n s = None \<and> loadGL_node j n s = None \<and> loadCSS_node j n s = None"
  using scene_never_returns [OF assms(2) assms(1), of j]
  by (simp add: loadGL_node_def loadCSS_node_def)

lemma example_cycle_closed:
  "\<forall>m \<in> {1, 2}. \<exists>p \<in> {1, 2}. parent_ref example_cycle m = Some p \<and>
      scene_ref example_cycle m = None \<and> \<not> isScene example_cycle p"
  by (simp add: example_cycle_def ib_init_def)

subsection \<open>C9: when the backend objects are created\<close>

text \<open>
  C9, as the code has it. The 3D object and the DOM-positioned object of a node are created
  on the first read of \<open>three\<close> and of \<open>threeCSS\<close>: a read finds no object, creates one
  and caches it; a read that finds one returns it. Neither getter looks at the scene or its
  flags (the line that did is commented out), so an object is created on first need whether
  or not its backend is active. What the flags gate is loading. For a node whose parent chain
  ends (within \<open>k\<close> steps) the scene getter returns, within \<open>k\<close> calls and with the same
  result for any larger number, having changed nothing but the cached scenes; then, when the
  node has no scene or its scene has \<open>webgl\<close> (respectively \<open>enableCss\<close>) off,
  \<open>_loadGL\<close> (\<open>_loadCSS\<close>) returns false, creates no object and leaves the node not
  loaded; and when the scene has \<open>webgl\<close> on and the node is not loaded, \<open>_loadGL\<close>
  returns true, with the node loaded and its 3D object created. Whenever \<open>_loadGL\<close>
  returns true the node is loaded and has its 3D object. On a set of nodes closed under
  the parent pointer (a parent cycle, which \<open>add\<close> does not prevent), with no scene
  cached and no scene among them, the getter's recursion does not end: the getter,
  \<open>_loadGL\<close> and \<open>_loadCSS\<close> return nothing, whatever the number of calls allowed.
\<close>

theorem backend_objects_created_on_first_read:
  "(three_ref s n = None \<longrightarrow>
      fst (three n s) = next_obj s \<and> three_ref (snd (three n s)) n = Some (next_obj s)) \<and>
   (three_ref s n = Some r \<longrightarrow> three n s = (r, s)) \<and>
   (threeCSS_ref s n = None \<and> (isHTMLElement s n \<or> isScene s n) \<longrightarrow>
      (\<exists>s'. threeCSS n s = Inr (next_obj s, s') \<and> threeCSS_ref s' n = Some (next_obj s))) \<and>
   (threeCSS_ref s n = Some r \<longrightarrow> threeCSS n s = Inr (r, s)) \<and>
   (chain_ends k s n \<longrightarrow>
      (\<exists>sc s1. (\<forall>j\<ge>k. scene j n s = Some (sc, s1)) \<and>
         three_ref s1 = three_ref s \<and> threeCSS_ref s1 = threeCSS_ref s \<and>
         objects s1 = objects s \<and> next_obj s1 = next_obj s \<and>
         glLoaded s1 = glLoaded s \<and> cssLoaded s1 = cssLoaded s \<and>
         (\<not> (case sc of None \<Rightarrow> False | Some c \<Rightarrow> webgl s c) \<longrightarrow>
            (\<forall>j\<ge>k. loadGL_node j n s = Some (False, s1))) \<and>
         (\<not> (case sc of None \<Rightarrow> False | Some c \<Rightarrow> enableCss s c) \<longrightarrow>
            (\<forall>j\<ge>k. loadCSS_node j n s = Some (Inr (False, s1)))) \<and>
         ((case sc of None \<Rightarrow> False | Some c \<Rightarrow> webgl s c) \<and> \<not> glLoaded s n \<longrightarrow>
            (\<forall>j\<ge>k. \<exists>s2. loadGL_node j n s = Some (True, s2) \<and>
               (\<exists>r. three_ref s2 n = Some r) \<and> glLoaded s2 n)))) \<and>
   (loadGL_node k n s = Some (True, s2) \<longrightarrow> (\<exists>r. three_ref s2 n = Some r) \<and> glLoaded s2 n) \<and>
   (n \<in> C \<and> (\<forall>m \<in> C. \<exists>p \<in> C. parent_ref s m = Some p \<and> scene_ref s m = None \<and> \<not> isScene s p) \<longrightarrow>
      (\<forall>j. scene j n s = None \<and> loadGL_node j n s = None \<and> loadCSS_node j n s = None))"
proof (intro conjI impI)
  assume "three_ref s n = None"
  then show "fst (three n s) = next_obj s" "three_ref (snd (three n s)) n = Some (next_obj s)"
    by (simp_all add: three_creates)
next
  assume "three_ref s n = Some r"
  then show "three n s = (r, s)" by (rule three_cached)
next
  assume "threeCSS_ref s n = None \<and> (isHTMLElement s n \<or> isScene s n)"
  with threeCSS_creates [of s n]
  show "\<exists>s'. threeCSS n s = Inr (next_obj s, s') \<and> threeCSS_ref s' n = Some (next_obj s)" by auto
next
  assume "threeCSS_ref s n = Some r"
  then show "threeCSS n s = Inr (r, s)" by (rule threeCSS_cached)
next
  assume "chain_ends k s n"
  then show "\<exists>sc s1. (\<forall>j\<ge>k. scene j n s = Some (sc, s1)) \<and>
         three_ref s1 = three_ref s \<and> threeCSS_ref s1 = threeCSS_ref s \<and>
         objects s1 = objects s \<and> next_obj s1 = next_obj s \<and>
         glLoaded s1 = glLoaded s \<and> cssLoaded s1 = cssLoaded s \<and>
         (\<not> (case sc of None \<Rightarrow> False | Some c \<Rightarrow> webgl s c) \<longrightarrow>
            (\<forall>j\<ge>k. loadGL_node j n s = Some (False, s1))) \<and>
         (\<not> (case sc of None \<Rightarrow> False | Some c \<Rightarrow> enableCss s c) \<longrightarrow>
            (\<forall>j\<ge>k. loadCSS_node j n s = Some (Inr (False, s1)))) \<and>
         ((case sc of None \<Rightarrow> False | Some c \<Rightarrow> webgl s c) \<and> \<not> glLoaded s n \<longrightarrow>
            (\<forall>j\<ge>k. \<exists>s2. loadGL_node j n s = Some (True, s2) \<and>
               (\<exists>r. three_ref s2 n = Some r) \<and> glLoaded s2 n))"
    by (rule chain_ends_loads)
next
  assume "loadGL_node k n s = Some (True, s2)"
  then show "\<exists>r. three_ref s2 n = Some r" "glLoaded s2 n"
    by (simp_all add: loadGL_node_creates)
next
  assume "n \<in> C \<and> (\<forall>m \<in> C. \<exists>p \<in> C. parent_ref s m = Some p \<and> scene_ref s m = None \<and> \<not> isScene s p)"
  then show "\<forall>j. scene j n s = None \<and> loadGL_node j n s = None \<and> loadCSS_node j n s = None"
    using cycle_never_loads [of n C s] by blast
qed

theorem backend_objects_created_on_first_read_witness:
  "three_ref (ib_init False True) 1 = None \<and>
   fst (three 1 (ib_init False True)) = 0 \<and>
   three_ref (snd (three 1 (ib_init False True))) 1 = Some 0 \<and>
   three 1 (snd (three 1 (ib_init False True))) = (0, snd (three 1 (ib_init False True))) \<and>
   chain_ends 2 (ib_init False True) 1 \<and> \<not> webgl (ib_init False True) 0 \<and>
   (\<exists>s1. scene 2 1 (ib_init False True) = Some (Some 0, s1) \<and>
      loadGL_node 2 1 (ib_init False True) = Some (False, s1) \<and>
      loadGL_node 3 1 (ib_init False True) = Some (False, s1) \<and>
      three_ref s1 1 = None \<and> next_obj s1 = 0 \<and> \<not> glLoaded s1 1) \<and>
   chain_ends 2 (ib_init True True) 1 \<and> webgl (ib_init True True) 0 \<and>
   (\<exists>s2. loadGL_node 2 1 (ib_init True True) = Some (True, s2) \<and>
      (\<exists>r. three_ref s2 1 = Some r) \<and> glLoaded s2 1) \<and>
   (\<forall>j. scene j 1 example_cycle = None \<and> loadGL_node j 1 example_cycle = None \<and>
      loadCSS_node j 1 example_cycle = None)"
proof -
  let ?s = "ib_init False True"
  let ?t = "ib_init True True"
  have pre: "three_ref ?s 1 = None" "next_obj ?s = 0" "\<not> webgl ?s 0" "glLoaded ?s = (\<lambda>n. False)"
    "three_ref ?s = (\<lambda>n. None)" "webgl ?t 0" "\<not> glLoaded ?t 1"
    by (simp_all add: ib_init_def)
  have ce: "chain_ends 2 ?s 1" "chain_ends 2 ?t 1"
    by (simp_all add: ib_init_def numeral_2_eq_2)
  have sc1: "scene 2 1 (ib_init gl css) =
     Some (Some 0, (ib_init gl css)\<lparr>scene_ref := (scene_ref (ib_init gl css))(1 \<mapsto> 0)\<rparr>)" for gl css
    using scene_example [of gl css] by (rule scene_mono [rotated]) simp
  note a = backend_objects_created_on_first_read [where s = ?s and n = 1 and r = 0 and k = 2
      and ?s2.0 = undefined and C = "{}"]
  from a pre(1,2) have g: "fst (three 1 ?s) = 0" "three_ref (snd (three 1 ?s)) 1 = Some 0"
    by simp_all
  from backend_objects_created_on_first_read [where s = "snd (three 1 ?s)" and n = 1 and r = 0
      and k = 2 and ?s2.0 = undefined and C = "{}"] g(2)
  have cached: "three 1 (snd (three 1 ?s)) = (0, snd (three 1 ?s))" by simp
  from a ce(1) have "\<exists>sc s1. (\<forall>j\<ge>2. scene j 1 ?s = Some (sc, s1)) \<and>
         three_ref s1 = three_ref ?s \<and> threeCSS_ref s1 = threeCSS_ref ?s \<and>
         objects s1 = objects ?s \<and> next_obj s1 = next_obj ?s \<and>
         glLoaded s1 = glLoaded ?s \<and> cssLoaded s1 = cssLoaded ?s \<and>
         (\<not> (case sc of None \<Rightarrow> False | Some c \<Rightarrow> webgl ?s c) \<longrightarrow>
            (\<forall>j\<ge>2. loadGL_node j 1 ?s = Some (False, s1))) \<and>
         (\<not> (case sc of None \<Rightarrow> False | Some c \<Rightarrow> enableCss ?s c) \<longrightarrow>
            (\<forall>j\<ge>2. loadCSS_node j 1 ?s = Some (Inr (False, s1)))) \<and>
         ((case sc of None \<Rightarrow> False | Some c \<Rightarrow> webgl ?s c) \<and> \<not> glLoaded ?s 1 \<longrightarrow>
            (\<forall>j\<ge>2. \<exists>s2. loadGL_node j 1 ?s = Some (True, s2) \<and>
               (\<exists>r. three_ref s2 1 = Some r) \<and> glLoaded s2 1))"
    by (elim conjE) (erule mp)
  then obtain sc s1 where
    all: "\<forall>j\<ge>2. scene j 1 ?s = Some (sc, s1)"
    and same: "three_ref s1 = three_ref ?s" "next_obj s1 = next_obj ?s" "glLoaded s1 = glLoaded ?s"
    and gate: "\<not> (case sc of None \<Rightarrow> False | Some c \<Rightarrow> webgl ?s c) \<longrightarrow>
            (\<forall>j\<ge>2. loadGL_node j 1 ?s = Some (False, s1))"
    by (elim exE conjE) blast
  from all have "scene 2 1 ?s = Some (sc, s1)" by simp
  with sc1 [of False True] have sc: "sc = Some 0" by simp
  with gate pre(3) have gl: "\<forall>j\<ge>2. loadGL_node j 1 ?s = Some (False, s1)" by simp
  then have gl2: "loadGL_node 2 1 ?s = Some (False, s1)" "loadGL_node 3 1 ?s = Some (False, s1)"
    by simp_all
  from all sc have sc2: "scene 2 1 ?s = Some (Some 0, s1)" by simp
  from same pre have vals: "three_ref s1 1 = None" "next_obj s1 = 0" "\<not> glLoaded s1 1" by simp_all
  have off: "\<exists>s1. scene 2 1 ?s = Some (Some 0, s1) \<and>
      loadGL_node 2 1 ?s = Some (False, s1) \<and> loadGL_node 3 1 ?s = Some (False, s1) \<and>
      three_ref s1 1 = None \<and> next_obj s1 = 0 \<and> \<not> glLoaded s1 1"
    using sc2 gl2 vals by (intro exI [of _ s1] conjI) assumption+
  note b = backend_objects_created_on_first_read [where s = ?t and n = 1 and r = 0 and k = 2
      and ?s2.0 = undefined and C = "{}"]
  from b ce(2) have "\<exists>sc s1. (\<forall>j\<ge>2. scene j 1 ?t = Some (sc, s1)) \<and>
         three_ref s1 = three_ref ?t \<and> threeCSS_ref s1 = threeCSS_ref ?t \<and>
         objects s1 = objects ?t \<and> next_obj s1 = next_obj ?t \<and>
         glLoaded s1 = glLoaded ?t \<and> cssLoaded s1 = cssLoaded ?t \<and>
         (\<not> (case sc of None \<Rightarrow> False | Some c \<Rightarrow> webgl ?t c) \<longrightarrow>
            (\<forall>j\<ge>2. loadGL_node j 1 ?t = Some (False, s1))) \<and>
         (\<not> (case sc of None \<Rightarrow> False | Some c \<Rightarrow> enableCss ?t c) \<longrightarrow>
            (\<forall>j\<ge>2. loadCSS_node j 1 ?t = Some (Inr (False, s1)))) \<and>
         ((case sc of None \<Rightarrow> False | Some c \<Rightarrow> webgl ?t c) \<and> \<not> glLoaded ?t 1 \<longrightarrow>
            (\<forall>j\<ge>2. \<exists>s2. loadGL_node j 1 ?t = Some (True, s2) \<and>
               (\<exists>r. three_ref s2 1 = Some r) \<and> glLoaded s2 1))"
    by (elim conjE) (erule mp)
  then obtain tc t1 where
    allt: "\<forall>j\<ge>2. scene j 1 ?t = Some (tc, t1)"
    and open_gate: "(case tc of None \<Rightarrow> False | Some c \<Rightarrow> webgl ?t c) \<and> \<not> glLoaded ?t 1 \<longrightarrow>
            (\<forall>j\<ge>2. \<exists>s2. loadGL_node j 1 ?t = Some (True, s2) \<and>
               (\<exists>r. three_ref s2 1 = Some r) \<and> glLoaded s2 1)"
    by (elim exE conjE) blast
  from allt have "scene 2 1 ?t = Some (tc, t1)" by simp
  with sc1 [of True True] have "tc = Some 0" by simp
  with open_gate pre(6,7) have "\<forall>j\<ge>2. \<exists>s2. loadGL_node j 1 ?t = Some (True, s2) \<and>
               (\<exists>r. three_ref s2 1 = Some r) \<and> glLoaded s2 1" by simp
  then have on: "\<exists>s2. loadGL_node 2 1 ?t = Some (True, s2) \<and>
               (\<exists>r. three_ref s2 1 = Some r) \<and> glLoaded s2 1" by simp
  from backend_objects_created_on_first_read [where s = example_cycle and n = 1 and r = 0
      and k = 2 and ?s2.0 = undefined and C = "{1, 2}"] example_cycle_closed
  have cyc: "\<forall>j. scene j 1 example_cycle = None \<and> loadGL_node j 1 example_cycle = None \<and>
      loadCSS_node j 1 example_cycle = None" by simp
  show ?thesis
    using pre(1) g cached ce(1) pre(3) off ce(2) pre(6) on cyc
    by (intro conjI) assumption+
qed

text \<open>
  C9 as stated fails: in a scene with both backends off, \<open>_calculateMatrix\<close> of a node
  (run by every render of the node) reads both getters and so creates both objects.
\<close>

theorem backend_objects_without_backend_counterexample:
  "map_option fst (scene 1 1 (ib_init False False)) = Some (Some 0) \<and>
   \<not> webgl (ib_init False False) 0 \<and> \<not> enableCss (ib_init False False) 0 \<and>
   three_ref (ib_init False False) 1 = None \<and> threeCSS_ref (ib_init False False) 1 = None \<and>
   \<not> isl (calculateMatrix 1 (ib_init False False)) \<and>
   three_ref (state_after (calculateMatrix 1 (ib_init False False))) 1 = Some 0 \<and>
   threeCSS_ref (state_after (calculateMatrix 1 (ib_init False False))) 1 = Some 1"
  by (simp add: scene_example)
     (simp add: calculateMatrix_def state_after_def ib_eval set_position_def set_pivot_def updateMatrix_def)

section \<open>Properties of the resolved sizes\<close>

subsection \<open>Resolving a node again settles it and what is below\<close>

lemma component_XYZ [simp]:
  "component AxisX (XYZ a b c) = a" "component AxisY (XYZ a b c) = b" "component AxisZ (XYZ a b c) = c"
  by (simp_all add: component_def)

lemma calcSize_proportional_ok: "proportional_ok psize (calcSize psize p)"
proof -
  have "component a (n_sizeMode p) = proportional \<longrightarrow>
        component a (n_calculatedSize (calcSize psize p)) = component a psize * component a (n_size p)" for a
    by (cases a) (simp_all add: calcSize_def resolve_axis_def component_def)
  then show ?thesis by (simp add: proportional_ok_def calcSize_def)
qed

lemma proportional_ok_flag [simp]:
  "proportional_ok psize (p\<lparr>n_willBeRendered := b\<rparr>) = proportional_ok psize p"
  by (simp add: proportional_ok_def)

lemma no_axis_proportional:
  assumes "xval (n_sizeMode p) \<noteq> proportional" "yval (n_sizeMode p) \<noteq> proportional"
    "zval (n_sizeMode p) \<noteq> proportional"
  shows "proportional_ok psize p"
proof -
  have "component a (n_sizeMode p) \<noteq> proportional" for a
    using assms by (cases a) (simp_all add: component_def)
  then show ?thesis by (simp add: proportional_ok_def)
qed

lemma parentSizeAutorun_ok: "proportional_ok psize (fst (parentSizeAutorun (Some psize) p))"
  by (simp add: parentSizeAutorun_def calcSize_proportional_ok no_axis_proportional)

lemma parentSizeAutorun_unwritten:
  "\<not> snd (parentSizeAutorun (Some psize) p) \<Longrightarrow> fst (parentSizeAutorun (Some psize) p) = p"
  by (simp add: parentSizeAutorun_def split: if_splits)

lemma parent_resized_settled: "settled psize0 t \<Longrightarrow> settled psize (parent_resized psize t)"
proof (induction t arbitrary: psize0 psize)
  case (Subtree p cs)
  let ?r = "parentSizeAutorun (Some psize) p"
  from Subtree.prems have below: "\<forall>c \<in> set cs. settled (n_calculatedSize p) c" by simp
  show ?case
  proof (cases "snd ?r")
    case True
    from below Subtree.IH
    have "\<forall>c \<in> set cs. settled (n_calculatedSize (fst ?r)) (parent_resized (n_calculatedSize (fst ?r)) c)"
      by blast
    with True show ?thesis by (simp add: parentSizeAutorun_ok Let_def)
  next
    case False
    from parentSizeAutorun_ok [of psize p] have "proportional_ok psize p"
      by (simp add: parentSizeAutorun_unwritten [OF False])
    with below False show ?thesis
      by (simp add: Let_def parentSizeAutorun_unwritten [OF False])
  qed
qed

lemma settled_below: "settled psize t \<Longrightarrow> below_settled t"
  by (cases t) (simp add: below_settled_def)

lemma size_changed_settled: "below_settled t \<Longrightarrow> settled psize (size_changed psize t)"
proof (cases t)
  case (Subtree p cs)
  assume "below_settled t"
  with Subtree have below: "\<forall>c \<in> set cs. settled (n_calculatedSize p) c"
    by (simp add: below_settled_def)
  let ?p1 = "(calcSize psize p)\<lparr>n_willBeRendered := True\<rparr>"
  from below parent_resized_settled
  have "\<forall>c \<in> set cs. settled (n_calculatedSize ?p1) (parent_resized (n_calculatedSize ?p1) c)"
    by blast
  with Subtree show ?thesis
    by (simp add: size_changed_def Let_def calcSize_proportional_ok)
qed

lemma set_size_settled: "below_settled t \<Longrightarrow> settled psize (set_size v psize t)"
  by (cases t) (simp add: set_size_def below_settled_def size_changed_settled)

lemma set_sizeMode_settled: "below_settled t \<Longrightarrow> settled psize (set_sizeMode m psize t)"
  by (cases t) (simp add: set_sizeMode_def below_settled_def size_changed_settled)

lemma at_path_settled:
  assumes f: "\<And>psize t. below_settled t \<Longrightarrow> settled psize (f psize t)"
  shows "settled psize t \<Longrightarrow> settled psize (at_path path f psize t)"
proof (induction path arbitrary: psize t)
  case Nil
  then show ?case by (simp add: f settled_below)
next
  case (Cons i path)
  obtain p cs where t: "t = Subtree p cs" by (cases t)
  show ?case
  proof (cases "i < length cs")
    case False
    with Cons.prems t show ?thesis by simp
  next
    case True
    from Cons.prems t have ok: "proportional_ok psize p"
      and below: "\<forall>c \<in> set cs. settled (n_calculatedSize p) c" by simp_all
    from below True have "settled (n_calculatedSize p) (cs ! i)" by simp
    then have new: "settled (n_calculatedSize p) (at_path path f (n_calculatedSize p) (cs ! i))"
      by (rule Cons.IH)
    have "\<forall>c \<in> set (cs[i := at_path path f (n_calculatedSize p) (cs ! i)]). settled (n_calculatedSize p) c"
      using below new by (auto dest!: set_update_subset_insert [THEN subsetD])
    with ok t True show ?thesis by simp
  qed
qed

lemma node_at_settled:
  "settled psize t \<Longrightarrow> node_at path psize t = Some (pp, p) \<Longrightarrow> proportional_ok pp p"
proof (induction path arbitrary: psize t)
  case Nil
  then show ?case by (cases t) simp
next
  case (Cons i path)
  obtain q cs where t: "t = Subtree q cs" by (cases t)
  with Cons.prems have i: "i < length cs" and n: "node_at path (n_calculatedSize q) (cs ! i) = Some (pp, p)"
    by (simp_all split: if_splits)
  from Cons.prems(1) t i have "settled (n_calculatedSize q) (cs ! i)" by simp
  from Cons.IH [OF this n] show ?case .
qed

lemma size_step_settled: "settled (fst st) (snd st) \<Longrightarrow> settled (fst (size_step ev st)) (snd (size_step ev st))"
  by (cases ev)
     (simp_all add: size_step_def onElementParentSizeChange_def size_changed_settled settled_below
        at_path_settled set_size_settled set_sizeMode_settled)

lemma size_steps_settled:
  "settled (fst st) (snd st) \<Longrightarrow> settled (fst (size_steps evs st)) (snd (size_steps evs st))"
  by (induction evs arbitrary: st) (simp_all add: size_step_settled)

lemmas size_eval = size_step_def onElementParentSizeChange_def size_changed_def set_size_def
  set_sizeMode_def parentSizeAutorun_def calcSize_def resolve_axis_def unresolved_def
  example_tree_def example_child_def Let_def

lemma settled_example: "settled (XYZ 0 0 0) example_tree"
proof -
  have "component a (XYZ match_parent match_parent literal) \<noteq> proportional" for a
    by (cases a) simp_all
  moreover have "component a (XYZ literal literal literal) \<noteq> proportional" for a
    by (cases a) simp_all
  moreover have "component a (XYZ proportional proportional literal) = proportional \<longrightarrow>
      component a (XYZ 0 0 0 :: real xyz) = component a (XYZ 0 0 0) * component a (XYZ 0.5 0.5 0)" for a
    by (cases a) simp_all
  ultimately show ?thesis
    by (simp add: example_tree_def example_child_def unresolved_def proportional_ok_def)
qed

lemma settled_example_child: "settled (XYZ 0 0 0) example_child"
  using settled_example by (simp add: example_tree_def unresolved_def)

subsection \<open>C3: proportional sizes\<close>

text \<open>
  C3. Start from a settled tree and let any events happen (the element of the scene is
  resized, sizes and size modes of nodes are written), the re-runs done after each: then for
  every node of the tree and every axis on which its size mode is \<open>proportional\<close>, its
  resolved size on that axis is the parent's resolved size times the stored size of the node.
  And when the resolved size of the parent of a settled subtree changes, the re-runs reach
  every node below whose size depends on it, through any number of levels: afterwards the same
  equation holds at every node of the subtree.
\<close>

theorem proportional_size_resolved:
  assumes "settled host t"
  shows "(node_at path (fst (size_steps evs (host, t))) (snd (size_steps evs (host, t))) = Some (pp, p) \<and>
          component a (n_sizeMode p) = proportional \<longrightarrow>
            component a (n_calculatedSize p) = component a pp * component a (n_size p)) \<and>
         (node_at path psize (parent_resized psize t) = Some (pp', p') \<and>
          component a (n_sizeMode p') = proportional \<longrightarrow>
            component a (n_calculatedSize p') = component a pp' * component a (n_size p'))"
proof (intro conjI impI)
  assume a: "node_at path (fst (size_steps evs (host, t))) (snd (size_steps evs (host, t))) = Some (pp, p) \<and>
          component a (n_sizeMode p) = proportional"
  from assms have "settled (fst (size_steps evs (host, t))) (snd (size_steps evs (host, t)))"
    by (intro size_steps_settled) simp
  from node_at_settled [OF this] a have "proportional_ok pp p" by blast
  with a show "component a (n_calculatedSize p) = component a pp * component a (n_size p)"
    by (simp add: proportional_ok_def)
next
  assume a: "node_at path psize (parent_resized psize t) = Some (pp', p') \<and>
          component a (n_sizeMode p') = proportional"
  from assms have "settled psize (parent_resized psize t)" by (rule parent_resized_settled)
  from node_at_settled [OF this] a have "proportional_ok pp' p'" by blast
  with a show "component a (n_calculatedSize p') = component a pp' * component a (n_size p')"
    by (simp add: proportional_ok_def)
qed

theorem proportional_size_resolved_witness:
  "settled (XYZ 0 0 0) example_tree \<and>
   map_option (\<lambda>r. (fst r, n_calculatedSize (snd r)))
     (node_at [0] (XYZ 800 600 0)
        (snd (size_steps [SetSize [0, 0] (XYZ 100 50 0), HostResize (XYZ 800 600 0)]
                (XYZ 0 0 0, example_tree)))) = Some (XYZ 800 600 0, XYZ 400 300 0) \<and>
   map_option (\<lambda>r. (fst r, n_calculatedSize (snd r)))
     (node_at [0, 0] (XYZ 800 600 0)
        (snd (size_steps [SetSize [0, 0] (XYZ 100 50 0), HostResize (XYZ 800 600 0)]
                (XYZ 0 0 0, example_tree)))) = Some (XYZ 400 300 0, XYZ 100 50 0) \<and>
   map_option (\<lambda>r. (fst r, n_calculatedSize (snd r)))
     (node_at [] (XYZ 1000 600 0) (parent_resized (XYZ 1000 600 0) example_child)) =
     Some (XYZ 1000 600 0, XYZ 500 300 0)"
proof -
  let ?evs = "[SetSize [0, 0] (XYZ 100 50 0), HostResize (XYZ 800 600 0)]"
  let ?st = "size_steps ?evs (XYZ 0 0 0, example_tree)"
  let ?a = "\<lparr>n_sizeMode = XYZ proportional proportional literal, n_size = XYZ 0.5 0.5 0,
     n_alignPoint = XYZ 0 0 0, n_calculatedSize = XYZ 400 300 0, n_willBeRendered = True\<rparr>"
  let ?a' = "\<lparr>n_sizeMode = XYZ proportional proportional literal, n_size = XYZ 0.5 0.5 0,
     n_alignPoint = XYZ 0 0 0, n_calculatedSize = XYZ 500 300 0, n_willBeRendered = True\<rparr>"
  let ?b = "\<lparr>n_sizeMode = XYZ literal literal literal, n_size = XYZ 100 50 0,
     n_alignPoint = XYZ 0 0 0, n_calculatedSize = XYZ 100 50 0, n_willBeRendered = True\<rparr>"
  have h: "fst ?st = XYZ 800 600 0" by (simp add: size_eval)
  have na: "node_at [0] (fst ?st) (snd ?st) = Some (XYZ 800 600 0, ?a)" by (simp add: size_eval)
  have nb: "node_at [0, 0] (fst ?st) (snd ?st) = Some (XYZ 400 300 0, ?b)" by (simp add: size_eval)
  have nc: "node_at [] (XYZ 1000 600 0) (parent_resized (XYZ 1000 600 0) example_child) =
      Some (XYZ 1000 600 0, ?a')" by (simp add: size_eval)
  from proportional_size_resolved [OF settled_example, of "[0]" ?evs "XYZ 800 600 0" ?a AxisX] na
  have "component AxisX (n_calculatedSize ?a) = 800 * 0.5" by simp
  moreover
  from proportional_size_resolved [OF settled_example_child, of "[]" _ _ _ AxisX "XYZ 1000 600 0"
      "XYZ 1000 600 0" ?a'] nc
  have "component AxisX (n_calculatedSize ?a') = 1000 * 0.5" by simp
  ultimately show ?thesis using settled_example na nb nc h by simp
qed

end
